theory Spec2Isabelle
  imports Complex_Main
begin

section \<open>Numbers of the solver\<close>

text \<open>
  The solver computes in \<open>NekDouble\<close> (IEEE double) and \<open>int\<close> (32 bits). A finite double
  is a real number; an \<open>fval\<close> is a finite double, an infinity or a NaN. The arithmetic is
  modelled at two levels.
  \<^item> The stable-step estimate, the extrapolation and the history of the velocity are
    modelled in exact arithmetic: a finite double is an exact \<open>real\<close>, and only a division
    by zero, where HOL has \<open>x / 0 = 0\<close>, leaves the reals (\<open>fdiv\<close>).
  \<^item> The number of sub-steps, the steady-state check, the clock and the counters of a
    run are modelled as the machine computes them: \<open>round_double\<close> rounds a real to the
    nearest double, \<open>fround\<close> overflows to an infinity, \<open>dadd\<close>, \<open>dsub\<close>, \<open>dmul\<close> and
    \<open>ddiv\<close> are the operations of IEEE 754 on doubles, and a cast to \<open>int\<close> or a sum of
    \<open>int\<close>s that leaves the 32-bit range is an error (the behaviour of the code is
    undefined).
\<close>

datatype fval = Fin real | PInf | MInf | NaN

text \<open>Division of two finite doubles in exact arithmetic. At each use below the divisor
  is never a negative zero, so a zero divisor gives the infinity of the dividend's sign.\<close>

definition fdiv :: "real \<Rightarrow> real \<Rightarrow> fval" where
  "fdiv a b =
     (if b \<noteq> 0 then Fin (a / b)
      else if 0 < a then PInf
      else if a < 0 then MInf
      else NaN)"

text \<open>The comparison \<open>x < y\<close> of doubles: false as soon as one side is a NaN.\<close>

fun fless :: "fval \<Rightarrow> fval \<Rightarrow> bool" where
  "fless NaN y = False"
| "fless x NaN = False"
| "fless (Fin a) (Fin b) = (a < b)"
| "fless x MInf = False"
| "fless MInf y = True"
| "fless PInf y = False"
| "fless (Fin a) PInf = True"

datatype error =
    AssertFail string
  | OutOfBounds
  | UndefinedCast
  | SignedOverflow
  | NonFinite
  | DivisionByZero

text \<open>Sequencing of steps that may fail, and a loop whose body may fail: the first
  failure ends the run.\<close>

definition ebind :: "error + 'a \<Rightarrow> ('a \<Rightarrow> error + 'b) \<Rightarrow> error + 'b" where
  "ebind m f = (case m of Inl e \<Rightarrow> Inl e | Inr x \<Rightarrow> f x)"

fun efold :: "('a \<Rightarrow> 's \<Rightarrow> error + 's) \<Rightarrow> 'a list \<Rightarrow> 's \<Rightarrow> error + 's" where
  "efold f [] s = Inr s"
| "efold f (x # xs) s = (case f x s of Inl e \<Rightarrow> Inl e | Inr s' \<Rightarrow> efold f xs s')"

text \<open>Reading entry \<open>i\<close> of an array.\<close>

definition read_at :: "'a list \<Rightarrow> nat \<Rightarrow> error + 'a" where
  "read_at xs i = (if i < length xs then Inr (xs ! i) else Inl OutOfBounds)"

subsection \<open>The arithmetic of doubles\<close>

text \<open>
  A double has 53 significant binary digits and an exponent from -1022 to 1023; below
  \<open>2^-1022\<close> the spacing of the doubles stays \<open>2^-1074\<close> (subnormal numbers). The largest
  double is \<open>(2^53 - 1) * 2^971\<close>.
\<close>

definition max_double :: real where
  "max_double = (2 ^ 53 - 1) * 2 ^ 971"

text \<open>The integer nearest to \<open>y\<close>, the even one of the two when \<open>y\<close> is half-way.\<close>

definition rne :: "real \<Rightarrow> int" where
  "rne y =
     (let f = \<lfloor>y\<rfloor>; r = y - of_int f in
      if r < 1 / 2 then f
      else if 1 / 2 < r then f + 1
      else if even f then f else f + 1)"

text \<open>The exponent of the last binary digit that a double near \<open>x \<noteq> 0\<close> keeps: the spacing
  of the doubles from \<open>2^e\<close> to \<open>2^(e+1)\<close> is \<open>2^(e-52)\<close>.\<close>

definition ulp_exp :: "real \<Rightarrow> int" where
  "ulp_exp x = max \<lfloor>log 2 \<bar>x\<bar>\<rfloor> (- 1022) - 52"

text \<open>Rounding to nearest, ties to even, as if the exponent had no upper bound.\<close>

definition round_double :: "real \<Rightarrow> real" where
  "round_double x =
     (if x = 0 then 0
      else of_int (rne (x / 2 powr of_int (ulp_exp x))) * 2 powr of_int (ulp_exp x))"

text \<open>The double that an operation returns for the exact result \<open>x\<close>: the rounded value,
  or an infinity when the rounded value is beyond the largest double.\<close>

definition fround :: "real \<Rightarrow> fval" where
  "fround x =
     (let r = round_double x in
      if max_double < r then PInf else if r < - max_double then MInf else Fin r)"

fun dneg :: "fval \<Rightarrow> fval" where
  "dneg (Fin a) = Fin (- a)"
| "dneg PInf = MInf"
| "dneg MInf = PInf"
| "dneg NaN = NaN"

text \<open>\<open>fabs\<close>.\<close>

fun dabs :: "fval \<Rightarrow> fval" where
  "dabs (Fin a) = Fin \<bar>a\<bar>"
| "dabs PInf = PInf"
| "dabs MInf = PInf"
| "dabs NaN = NaN"

text \<open>The sum of two doubles; the sum of the two infinities of opposite sign is a NaN.\<close>

fun dadd :: "fval \<Rightarrow> fval \<Rightarrow> fval" where
  "dadd (Fin a) (Fin b) = fround (a + b)"
| "dadd NaN y = NaN"
| "dadd x NaN = NaN"
| "dadd PInf MInf = NaN"
| "dadd MInf PInf = NaN"
| "dadd PInf y = PInf"
| "dadd x PInf = PInf"
| "dadd MInf y = MInf"
| "dadd x MInf = MInf"

definition dsub :: "fval \<Rightarrow> fval \<Rightarrow> fval" where
  "dsub x y = dadd x (dneg y)"

definition inf_of_sign :: "bool \<Rightarrow> fval" where
  "inf_of_sign positive = (if positive then PInf else MInf)"

text \<open>The product of two doubles; an infinity times zero is a NaN.\<close>

fun dmul :: "fval \<Rightarrow> fval \<Rightarrow> fval" where
  "dmul (Fin a) (Fin b) = fround (a * b)"
| "dmul NaN y = NaN"
| "dmul x NaN = NaN"
| "dmul (Fin a) PInf = (if a = 0 then NaN else inf_of_sign (0 < a))"
| "dmul (Fin a) MInf = (if a = 0 then NaN else inf_of_sign (a < 0))"
| "dmul PInf (Fin b) = (if b = 0 then NaN else inf_of_sign (0 < b))"
| "dmul MInf (Fin b) = (if b = 0 then NaN else inf_of_sign (b < 0))"
| "dmul PInf PInf = PInf"
| "dmul PInf MInf = MInf"
| "dmul MInf PInf = MInf"
| "dmul MInf MInf = PInf"

text \<open>The quotient of two doubles. A \<open>Fin 0\<close> stands for both zeros of the machine; as a
  divisor it is taken as \<open>+0\<close>, which it is wherever a quotient by zero below is used
  for more than being an infinity. A finite double divided by an infinity is a zero,
  an infinity divided by an infinity a NaN.\<close>

fun ddiv :: "fval \<Rightarrow> fval \<Rightarrow> fval" where
  "ddiv (Fin a) (Fin b) =
     (if b \<noteq> 0 then fround (a / b) else if a = 0 then NaN else inf_of_sign (0 < a))"
| "ddiv NaN y = NaN"
| "ddiv x NaN = NaN"
| "ddiv (Fin a) y = Fin 0"
| "ddiv PInf (Fin b) = inf_of_sign (0 \<le> b)"
| "ddiv MInf (Fin b) = inf_of_sign (b < 0)"
| "ddiv x y = NaN"

definition is_finite :: "fval \<Rightarrow> bool" where
  "is_finite x = (case x of Fin v \<Rightarrow> True | _ \<Rightarrow> False)"

text \<open>A double that is not negative, or plus infinity.\<close>

definition nonneg_double :: "fval \<Rightarrow> bool" where
  "nonneg_double x =
     (case x of Fin v \<Rightarrow> 0 \<le> v \<and> fround v = Fin v | PInf \<Rightarrow> True | _ \<Rightarrow> False)"

subsection \<open>The arithmetic of int\<close>

definition INT_MIN :: int where
  "INT_MIN = - (2 ^ 31)"

definition INT_MAX :: int where
  "INT_MAX = 2 ^ 31 - 1"

text \<open>The cast \<open>(int) x\<close> of a finite double truncates towards zero; the behaviour is
  undefined when the truncated value is not an \<open>int\<close>.\<close>

definition c_int :: "real \<Rightarrow> error + int" where
  "c_int x =
     (let t = (if 0 \<le> x then \<lfloor>x\<rfloor> else \<lceil>x\<rceil>) in
      if INT_MIN \<le> t \<and> t \<le> INT_MAX then Inr t else Inl UndefinedCast)"

text \<open>The sum \<open>a + b\<close> of two \<open>int\<close>s; the behaviour is undefined when it overflows.\<close>

definition int_add :: "int \<Rightarrow> int \<Rightarrow> error + int" where
  "int_add a b =
     (if INT_MIN \<le> a + b \<and> a + b \<le> INT_MAX then Inr (a + b) else Inl SignedOverflow)"

section \<open>SubStepAdvance: the number of sub-steps\<close>

text \<open>
  Lines 741 to 747 of \<open>SubStepAdvance\<close>:
  \<^verbatim>\<open>
    dt = GetSubstepTimeStep();
    nsubsteps = (m_timestep > dt)? ((int)(m_timestep/dt)+1):1;
    m_session->LoadParameter("MinSubSteps", minsubsteps,0);
    nsubsteps = max(minsubsteps, nsubsteps);
    dt = m_timestep/nsubsteps;
  \<close>
  \<open>dt\<close> is what \<open>GetSubstepTimeStep\<close> returned, \<open>minsubsteps\<close> the session's parameter.
  The quotient is the double nearest to \<open>m_timestep/dt\<close>. It is only formed when
  \<open>m_timestep > dt\<close>, so \<open>dt\<close> is then neither a NaN nor \<open>+inf\<close>; by \<open>-inf\<close> the quotient is a
  zero, by a zero it is an infinity, whose cast to \<open>int\<close> is undefined as is the cast of a
  quotient of \<open>2^31\<close> or more; the sum \<open>(int) q + 1\<close> overflows when the cast is \<open>2^31 - 1\<close>.
\<close>

definition SubStepAdvance_nsubsteps :: "real \<Rightarrow> fval \<Rightarrow> int \<Rightarrow> error + int" where
  "SubStepAdvance_nsubsteps m_timestep dt minsubsteps =
     (if fless dt (Fin m_timestep) then
        (case ddiv (Fin m_timestep) dt of
           Fin q \<Rightarrow>
             ebind (c_int q) (\<lambda>k.
             ebind (int_add k 1) (\<lambda>nsubsteps.
             Inr (max minsubsteps nsubsteps)))
         | _ \<Rightarrow> Inl UndefinedCast)
      else Inr (max minsubsteps 1))"

text \<open>The last line: \<open>nsubsteps\<close> is converted to a double, which is exact.\<close>

definition SubStepAdvance_dt :: "real \<Rightarrow> int \<Rightarrow> fval" where
  "SubStepAdvance_dt m_timestep nsubsteps = ddiv (Fin m_timestep) (Fin (real_of_int nsubsteps))"

section \<open>Fields\<close>

text \<open>
  A field of the solver (\<open>m_fields[i]\<close>, an expansion list of the discretisation library)
  as far as this file reads and writes it: the physical values at the quadrature points,
  the coefficients, the flag \<open>m_physState\<close> that \<open>SetPhysState\<close> sets (true: the physical
  values are up to date) and the flag that \<open>SetWaveSpace\<close> sets.
\<close>

record Field =
  phys :: "real list"
  coeffs :: "real list"
  physState :: bool
  waveSpace :: bool

definition GetNcoeffs :: "Field \<Rightarrow> nat" where
  "GetNcoeffs f = length (coeffs f)"

definition GetTotPoints :: "Field \<Rightarrow> nat" where
  "GetTotPoints f = length (phys f)"

section \<open>CalcSteadyState\<close>

text \<open>Modelled from the spec: \<open>Vmath::Dot\<close> (the library's vector routines are not part
  of the file), the dot product of the first \<open>n\<close> entries of two arrays, summed from the
  first entry on in doubles (\<open>sum += w[i] * x[i]\<close>): each product and each sum is
  rounded. Reading past the end of an array is out of bounds.\<close>

definition Vmath_Dot :: "nat \<Rightarrow> real list \<Rightarrow> real list \<Rightarrow> error + fval" where
  "Vmath_Dot n x y =
     (if n \<le> length x \<and> n \<le> length y
      then Inr (foldl (\<lambda>sum (a, b). dadd sum (dmul (Fin a) (Fin b)))
                  (Fin 0) (zip (take n x) (take n y)))
      else Inl OutOfBounds)"

text \<open>The loop \<open>for (i = 0; i < m_fields.num_elements(); ++i) L2 += Vmath::Dot(ncoeffs, ...)\<close>
  over the fields still to visit, with the sum so far.\<close>

fun CalcSteadyState_L2 :: "nat \<Rightarrow> Field list \<Rightarrow> fval \<Rightarrow> error + fval" where
  "CalcSteadyState_L2 ncoeffs [] L2 = Inr L2"
| "CalcSteadyState_L2 ncoeffs (f # fs) L2 =
     (case Vmath_Dot ncoeffs (coeffs f) (coeffs f) of
        Inl e \<Rightarrow> Inl e
      | Inr d \<Rightarrow> CalcSteadyState_L2 ncoeffs fs (dadd L2 d))"

text \<open>
  \<open>CalcSteadyState\<close>: the static \<open>previousL2\<close> is an argument and the second component of
  the result; the first component is the value returned,
  \<open>fabs(L2 - previousL2) < ncoeffs * m_steadyStateTol\<close>. \<open>ncoeffs\<close> is the number of
  coefficients of \<open>m_fields[0]\<close>, an \<open>int\<close> that the product converts to a double.
\<close>

definition CalcSteadyState :: "Field list \<Rightarrow> real \<Rightarrow> fval \<Rightarrow> error + (bool \<times> fval)" where
  "CalcSteadyState m_fields m_steadyStateTol previousL2 =
     (case m_fields of
        [] \<Rightarrow> Inl OutOfBounds
      | f0 # _ \<Rightarrow>
          (let ncoeffs = GetNcoeffs f0 in
           case CalcSteadyState_L2 ncoeffs m_fields (Fin 0) of
             Inl e \<Rightarrow> Inl e
           | Inr L2 \<Rightarrow>
               Inr (fless (dabs (dsub L2 previousL2))
                          (dmul (Fin (real ncoeffs)) (Fin m_steadyStateTol)), L2)))"

text \<open>A sequence of calls, each on the fields as they are at that call; the results
  returned, and \<open>previousL2\<close> as the last call leaves it.\<close>

fun CalcSteadyState_calls :: "Field list list \<Rightarrow> real \<Rightarrow> fval \<Rightarrow> error + (bool list \<times> fval)" where
  "CalcSteadyState_calls [] tol previousL2 = Inr ([], previousL2)"
| "CalcSteadyState_calls (fs # rest) tol previousL2 =
     (case CalcSteadyState fs tol previousL2 of
        Inl e \<Rightarrow> Inl e
      | Inr (r, L2) \<Rightarrow>
          (case CalcSteadyState_calls rest tol L2 of
             Inl e \<Rightarrow> Inl e
           | Inr (rs, p) \<Rightarrow> Inr (r # rs, p)))"

text \<open>\<open>static NekDouble previousL2 = 0.0;\<close> the value that the first call of a process
  finds, and the calls of a process from the first one on.\<close>

definition previousL2_initial :: fval where
  "previousL2_initial = Fin 0"

definition CalcSteadyState_process :: "Field list list \<Rightarrow> real \<Rightarrow> error + (bool list \<times> fval)" where
  "CalcSteadyState_process calls tol = CalcSteadyState_calls calls tol previousL2_initial"

text \<open>The metric in the words of the specification, in doubles: the sum over the fields
  of the dot product of a coefficient vector with itself, where the vector of a field is
  its first \<open>ncoeffs\<close> coefficients, \<open>ncoeffs\<close> the number of coefficients of the first
  field. The threshold is the product \<open>ncoeffs * tolerance\<close>, rounded.\<close>

definition dsum :: "fval list \<Rightarrow> fval" where
  "dsum xs = foldl dadd (Fin 0) xs"

definition self_dot :: "real list \<Rightarrow> fval" where
  "self_dot cs = dsum (map (\<lambda>c. dmul (Fin c) (Fin c)) cs)"

definition spec_L2 :: "Field list \<Rightarrow> fval" where
  "spec_L2 fs = dsum (map (\<lambda>f. self_dot (take (GetNcoeffs (hd fs)) (coeffs f))) fs)"

definition threshold :: "Field list \<Rightarrow> real \<Rightarrow> fval" where
  "threshold fs tol = dmul (Fin (real (GetNcoeffs (hd fs)))) (Fin tol)"

text \<open>The reads of a call stay inside the arrays: there is a first field, and no field
  has fewer coefficients than the first.\<close>

definition coeffs_in_bounds :: "Field list \<Rightarrow> bool" where
  "coeffs_in_bounds fs = (fs \<noteq> [] \<and> list_all (\<lambda>f. GetNcoeffs (hd fs) \<le> GetNcoeffs f) fs)"

section \<open>GetStdVelocity and GetSubstepTimeStep\<close>

text \<open>
  What the estimator reads of an element \<open>m_fields[0]->GetExp(el)\<close>: its number of
  quadrature points, the type of its geometry and the geometric factors \<open>gmat[r][c]\<close>
  (\<open>GetGeom2D()->GetGmat()\<close> or \<open>GetGeom3D()->GetGmat()\<close>, whichever the branch taken
  asks for). Only \<open>eDeformed\<close> is tested for; every other geometry type takes the
  branch of \<open>eRegular\<close>.
\<close>

datatype GeomType = eRegular | eDeformed

record Exp =
  ExpTotPoints :: nat
  Gtype :: GeomType
  Gmat :: "real list list"

text \<open>
  The body of the loops over the points \<open>i\<close> of one element when \<open>nvel == 2\<close>: the
  velocity in the coordinates of the reference element, and its magnitude
  \<open>pntVelocity\<close>. A deformed element reads column \<open>i\<close> of \<open>gmat\<close>, any other column 0.
  The velocity is read at \<open>inarray[.][i]\<close>, with \<open>i\<close> counted from 0 in every element.
\<close>

definition pntVelocity2 :: "Exp \<Rightarrow> real list list \<Rightarrow> nat \<Rightarrow> real" where
  "pntVelocity2 e inarray i =
     (let gmat = Gmat e;
          c = (if Gtype e = eDeformed then i else 0);
          stdVelocity0 = gmat ! 0 ! c * inarray ! 0 ! i + gmat ! 2 ! c * inarray ! 1 ! i;
          stdVelocity1 = gmat ! 1 ! c * inarray ! 0 ! i + gmat ! 3 ! c * inarray ! 1 ! i
      in sqrt (stdVelocity0 * stdVelocity0 + stdVelocity1 * stdVelocity1))"

text \<open>The same in the other branch, which reads three velocity components.\<close>

definition pntVelocity3 :: "Exp \<Rightarrow> real list list \<Rightarrow> nat \<Rightarrow> real" where
  "pntVelocity3 e inarray i =
     (let gmat = Gmat e;
          c = (if Gtype e = eDeformed then i else 0);
          stdVelocity0 = gmat ! 0 ! c * inarray ! 0 ! i + gmat ! 3 ! c * inarray ! 1 ! i
                           + gmat ! 6 ! c * inarray ! 2 ! i;
          stdVelocity1 = gmat ! 1 ! c * inarray ! 0 ! i + gmat ! 4 ! c * inarray ! 1 ! i
                           + gmat ! 7 ! c * inarray ! 2 ! i;
          stdVelocity2 = gmat ! 2 ! c * inarray ! 0 ! i + gmat ! 5 ! c * inarray ! 1 ! i
                           + gmat ! 8 ! c * inarray ! 2 ! i
      in sqrt (stdVelocity0 * stdVelocity0 + stdVelocity1 * stdVelocity1
                 + stdVelocity2 * stdVelocity2))"

text \<open>\<open>stdV[el]\<close>: it starts at 0 and the loop over the points replaces it by every
  \<open>pntVelocity\<close> that is larger.\<close>

definition GetStdVelocity_elmt :: "nat \<Rightarrow> real list list \<Rightarrow> Exp \<Rightarrow> real" where
  "GetStdVelocity_elmt nvel inarray e =
     fold (\<lambda>i stdV.
             let pntVelocity = (if nvel = 2 then pntVelocity2 e inarray i
                                else pntVelocity3 e inarray i)
             in if stdV < pntVelocity then pntVelocity else stdV)
       [0..<ExpTotPoints e] 0"

text \<open>
  The reads of one element stay inside the arrays: an element with no point reads
  nothing; otherwise the branch needs 2 (if \<open>nvel == 2\<close>) or 3 velocity arrays with a value
  at every point index of the element, and 4 or 9 rows of \<open>gmat\<close> with a column for
  every point (deformed) or one column.
\<close>

definition elmt_in_bounds :: "nat \<Rightarrow> real list list \<Rightarrow> Exp \<Rightarrow> bool" where
  "elmt_in_bounds nvel inarray e =
     (ExpTotPoints e = 0 \<or>
      (let d = (if nvel = 2 then 2 else 3) in
         d \<le> nvel
         \<and> list_all (\<lambda>a. ExpTotPoints e \<le> length a) (take d inarray)
         \<and> d * d \<le> length (Gmat e)
         \<and> list_all (\<lambda>row. (if Gtype e = eDeformed then ExpTotPoints e else 1) \<le> length row)
               (take (d * d) (Gmat e))))"

text \<open>\<open>GetStdVelocity\<close>: the assertion first, then one value per element.\<close>

definition GetStdVelocity :: "int \<Rightarrow> Exp list \<Rightarrow> real list list \<Rightarrow> error + real list" where
  "GetStdVelocity m_expdim exps inarray =
     (if \<not> 2 \<le> m_expdim then Inl (AssertFail ''Method not implemented for 1D'')
      else if \<not> list_all (elmt_in_bounds (length inarray) inarray) exps then Inl OutOfBounds
      else Inr (map (GetStdVelocity_elmt (length inarray) inarray) exps))"

text \<open>The stable step of one element, with \<open>cLambda = 0.2\<close>:
  \<^verbatim>\<open>tstep[el] = m_cflSafetyFactor / (stdVelocity[el] * cLambda * (ExpOrder[el]-1) * (ExpOrder[el]-1));\<close>
  The divisor vanishes for an element at rest and for an order of 1.\<close>

definition tstep :: "real \<Rightarrow> real \<Rightarrow> int \<Rightarrow> fval" where
  "tstep m_cflSafetyFactor stdVelocity ExpOrder =
     fdiv m_cflSafetyFactor
       (stdVelocity * (2/10) * real_of_int (ExpOrder - 1) * real_of_int (ExpOrder - 1))"

text \<open>Modelled from the spec: \<open>Vmath::Vmin\<close> (the library's vector routines are not part
  of the file), the minimum of an array: it starts from the first entry and takes every
  entry that compares smaller. An empty array has no first entry to read.\<close>

definition Vmath_Vmin :: "fval list \<Rightarrow> error + fval" where
  "Vmath_Vmin x =
     (case x of
        [] \<Rightarrow> Inl OutOfBounds
      | x0 # _ \<Rightarrow> Inr (fold (\<lambda>y xmin. if fless y xmin then y else xmin) x x0))"

text \<open>
  \<open>GetSubstepTimeStep\<close>. \<open>velfields\<close> are the physical values of the velocity fields
  \<open>m_fields[m_velocity[i]]\<close>, \<open>ExpOrder\<close> is \<open>GetNumExpModesPerExp()\<close>, the number of modes
  of each element.
\<close>

definition GetSubstepTimeStep ::
  "int \<Rightarrow> Exp list \<Rightarrow> real list list \<Rightarrow> int list \<Rightarrow> real \<Rightarrow> error + fval" where
  "GetSubstepTimeStep m_expdim exps velfields ExpOrder m_cflSafetyFactor =
     (case GetStdVelocity m_expdim exps velfields of
        Inl e \<Rightarrow> Inl e
      | Inr stdVelocity \<Rightarrow>
          if length ExpOrder < length exps then Inl OutOfBounds
          else Vmath_Vmin (map2 (tstep m_cflSafetyFactor) stdVelocity ExpOrder))"

text \<open>
  The estimator in the words of the specification: the velocity of element \<open>el\<close> is the
  velocity at the quadrature points of element \<open>el\<close>. The physical values of a field hold
  the elements one after the other, so the points of an element are the next
  \<open>ExpTotPoints\<close> entries after those of the elements before it.
\<close>

fun spec_StdVelocity :: "nat \<Rightarrow> real list list \<Rightarrow> Exp list \<Rightarrow> real list" where
  "spec_StdVelocity nvel velocity [] = []"
| "spec_StdVelocity nvel velocity (e # es) =
     GetStdVelocity_elmt nvel (map (take (ExpTotPoints e)) velocity) e
       # spec_StdVelocity nvel (map (drop (ExpTotPoints e)) velocity) es"

definition spec_stable_step :: "Exp list \<Rightarrow> real list list \<Rightarrow> int list \<Rightarrow> real \<Rightarrow> error + fval" where
  "spec_stable_step exps velocity order safetyFactor =
     Vmath_Vmin (map2 (\<lambda>stdVelocity p. fdiv safetyFactor (stdVelocity * (2/10) * (real_of_int (p - 1))\<^sup>2))
                   (spec_StdVelocity (length velocity) velocity exps) order)"

section \<open>SubStepExtrapoloteField\<close>

text \<open>
  One pass of the body of the two loops that compute the Lagrange interpolants:
  \<^verbatim>\<open>
    if(i != j)
    {
        l[i] *= (j*m_timestep+toff);
        l[i] /= (j*m_timestep-i*m_timestep);
    }
  \<close>
\<close>

definition l_step :: "real \<Rightarrow> real \<Rightarrow> nat \<Rightarrow> nat \<Rightarrow> real list \<Rightarrow> error + real list" where
  "l_step m_timestep toff i j l =
     (if i \<noteq> j then
        (if i < length l
         then Inr (l[i := l ! i * (real j * m_timestep + toff)
                              / (real j * m_timestep - real i * m_timestep)])
         else Inl OutOfBounds)
      else Inr l)"

text \<open>The array \<open>l\<close> of 4 entries, filled with 1, after the loops
  \<open>for(i = 0; i <= ord; ++i) for(j = 0; j <= ord; ++j)\<close>.\<close>

definition Lagrange_interpolants :: "nat \<Rightarrow> real \<Rightarrow> real \<Rightarrow> error + real list" where
  "Lagrange_interpolants ord m_timestep toff =
     efold (\<lambda>i. efold (l_step m_timestep toff i) [0..<Suc ord]) [0..<Suc ord] (replicate 4 1)"

text \<open>Modelled from the spec: \<open>Vmath::Smul\<close> and \<open>Blas::Daxpy\<close> (library routines, not part
  of the file), which the weighted sum of the snapshots is computed with:
  \<open>Smul(n, a, x, 1, y, 1)\<close> stores \<open>a * x[k]\<close> in \<open>y[k]\<close> and \<open>Daxpy(n, a, x, 1, y, 1)\<close> adds
  \<open>a * x[k]\<close> to \<open>y[k]\<close>, for \<open>k < n\<close>.\<close>

definition Vmath_Smul :: "nat \<Rightarrow> real \<Rightarrow> real list \<Rightarrow> real list \<Rightarrow> error + real list" where
  "Vmath_Smul n a x y =
     (if n \<le> length x \<and> n \<le> length y
      then Inr (map (\<lambda>k. a * x ! k) [0..<n] @ drop n y)
      else Inl OutOfBounds)"

definition Blas_Daxpy :: "nat \<Rightarrow> real \<Rightarrow> real list \<Rightarrow> real list \<Rightarrow> error + real list" where
  "Blas_Daxpy n a x y =
     (if n \<le> length x \<and> n \<le> length y
      then Inr (map (\<lambda>k. a * x ! k + y ! k) [0..<n] @ drop n y)
      else Inl OutOfBounds)"

text \<open>
  The body of the loop over the velocity components:
  \<^verbatim>\<open>
    Vmath::Smul(npts,l[0],m_previousVelFields[i],1,ExtVel[i],1);
    for(j = 1; j <= ord; ++j)
    {
        Blas::Daxpy(npts,l[j],m_previousVelFields[j*nvel+i],1, ExtVel[i],1);
    }
  \<close>
\<close>

definition ExtVel_component ::
  "nat \<Rightarrow> nat \<Rightarrow> nat \<Rightarrow> real list \<Rightarrow> real list list \<Rightarrow> nat \<Rightarrow> real list list
     \<Rightarrow> error + real list list" where
  "ExtVel_component npts nvel ord l m_previousVelFields i ExtVel =
     ebind (read_at l 0) (\<lambda>l0.
     ebind (read_at m_previousVelFields i) (\<lambda>p0.
     ebind (read_at ExtVel i) (\<lambda>y.
     ebind (Vmath_Smul npts l0 p0 y) (\<lambda>y0.
     ebind (efold (\<lambda>j y.
              ebind (read_at l j) (\<lambda>lj.
              ebind (read_at m_previousVelFields (j * nvel + i)) (\<lambda>pj.
              Blas_Daxpy npts lj pj y)))
            [1..<Suc ord] y0) (\<lambda>y'.
     Inr (ExtVel[i := y']))))))"

text \<open>
  \<open>SubStepExtrapoloteField(toff, ExtVel)\<close>, with \<open>npts = m_fields[0]->GetTotPoints()\<close>,
  \<open>nvel = m_velocity.num_elements()\<close> and \<open>ord = m_intSteps\<close>. The weights are divided by
  \<open>(j - i) * m_timestep\<close>: with a step of 0 and more than one node every weight is an
  infinity or a NaN, and so is all that is computed from it; the exact reals have no
  such value, and the run ends in \<open>NonFinite\<close> once it is through the loops.
\<close>

definition SubStepExtrapoloteField ::
  "nat \<Rightarrow> nat \<Rightarrow> nat \<Rightarrow> real \<Rightarrow> real list list \<Rightarrow> real \<Rightarrow> real list list
     \<Rightarrow> error + real list list" where
  "SubStepExtrapoloteField npts nvel m_intSteps m_timestep m_previousVelFields toff ExtVel =
     (let ord = m_intSteps in
      ebind (Lagrange_interpolants ord m_timestep toff) (\<lambda>l.
      ebind (efold (ExtVel_component npts nvel ord l m_previousVelFields) [0..<nvel] ExtVel)
        (\<lambda>ExtVel'.
      if m_timestep = 0 \<and> 0 < ord then Inl NonFinite else Inr ExtVel')))"

section \<open>SubStepSaveFields\<close>

text \<open>
  \<open>m_previousVelFields\<close> is an array of arrays. An array of the library is a handle on a
  buffer that it shares with its copies: \<open>a = b\<close> makes \<open>a\<close> refer to the buffer of \<open>b\<close> and
  copies no value (the array class is not part of the file). The rotation assigns
  arrays and \<open>Vmath::Vcopy\<close> writes into their buffers, so the history is modelled as
  the list of the buffers that the entries of \<open>m_previousVelFields\<close> refer to, each
  named by a number, and the store of the buffers' contents.
\<close>

type_synonym buffers = "nat \<Rightarrow> real list"

text \<open>
  The rotation of the entries of one velocity component \<open>n\<close>:
  \<^verbatim>\<open>
    save = m_previousVelFields[(nblocks-1)*nvel+n];
    for(i = nblocks-1; i > 0; --i)
    {
        m_previousVelFields[i*nvel+n] = m_previousVelFields[(i-1)*nvel+n];
    }
    m_previousVelFields[n] = save;
  \<close>
  With \<open>nvel > 0\<close>, \<open>nblocks > 0\<close> and \<open>nblocks = num_elements / nvel\<close> every index is
  below \<open>nblocks * nvel\<close>, inside the array.
\<close>

definition rotate_component :: "nat \<Rightarrow> nat \<Rightarrow> nat \<Rightarrow> nat list \<Rightarrow> nat list" where
  "rotate_component nvel nblocks n prev =
     (let save = prev ! ((nblocks - 1) * nvel + n);
          prev' = fold (\<lambda>i p. p[i * nvel + n := p ! ((i - 1) * nvel + n)])
                    (rev [1..<nblocks]) prev
      in prev'[n := save])"

text \<open>Modelled from the spec: \<open>Vmath::Vcopy\<close> (a library routine, not part of the file),
  which copies the first \<open>n\<close> values of \<open>x\<close> into \<open>y\<close>.\<close>

definition Vmath_Vcopy :: "nat \<Rightarrow> real list \<Rightarrow> real list \<Rightarrow> error + real list" where
  "Vmath_Vcopy n x y =
     (if n \<le> length x \<and> n \<le> length y then Inr (take n x @ drop n y) else Inl OutOfBounds)"

text \<open>
  The body of the loop "Put previous field": the velocity field \<open>m_velocity[i]\<close> is
  transformed to physical space (\<open>BwdTrans\<close>, of the discretisation library, a
  parameter here) and its first \<open>npts\<close> values are copied into the buffer of entry \<open>i\<close>.
  Whether the library's \<open>UpdatePhys\<close> touches the flag of the field is not tracked.
\<close>

definition put_previous_field ::
  "(real list \<Rightarrow> real list) \<Rightarrow> nat \<Rightarrow> nat list \<Rightarrow> nat
     \<Rightarrow> Field list \<times> nat list \<times> buffers \<Rightarrow> error + Field list \<times> nat list \<times> buffers" where
  "put_previous_field BwdTrans npts m_velocity i st =
     (case st of (m_fields, prev, buf) \<Rightarrow>
      ebind (read_at m_velocity i) (\<lambda>v.
      ebind (read_at m_fields v) (\<lambda>f.
      let f' = f\<lparr>phys := BwdTrans (coeffs f)\<rparr> in
      ebind (read_at prev i) (\<lambda>a.
      ebind (Vmath_Vcopy npts (phys f') (buf a)) (\<lambda>b.
      Inr (m_fields[v := f'], prev, buf(a := b)))))))"

text \<open>The body of the loops that run when \<open>nstep == 0\<close>: the physical values of the
  velocity field \<open>m_velocity[n]\<close> are copied into the buffer of level \<open>i\<close>.\<close>

definition initialise_level ::
  "nat \<Rightarrow> nat \<Rightarrow> nat list \<Rightarrow> nat \<Rightarrow> nat
     \<Rightarrow> Field list \<times> nat list \<times> buffers \<Rightarrow> error + Field list \<times> nat list \<times> buffers" where
  "initialise_level npts nvel m_velocity n i st =
     (case st of (m_fields, prev, buf) \<Rightarrow>
      ebind (read_at m_velocity n) (\<lambda>v.
      ebind (read_at m_fields v) (\<lambda>f.
      ebind (read_at prev (i * nvel + n)) (\<lambda>a.
      ebind (Vmath_Vcopy npts (phys f) (buf a)) (\<lambda>b.
      Inr (m_fields, prev, buf(a := b)))))))"

text \<open>
  \<open>SubStepSaveFields(nstep)\<close> on the fields, the entries of \<open>m_previousVelFields\<close> and
  the buffers. \<open>nblocks = m_previousVelFields.num_elements()/nvel\<close> divides by the number
  of velocity components; with no block, the first read of the rotation has a negative
  index.
\<close>

definition SubStepSaveFields ::
  "(real list \<Rightarrow> real list) \<Rightarrow> nat list \<Rightarrow> int
     \<Rightarrow> Field list \<times> nat list \<times> buffers \<Rightarrow> error + Field list \<times> nat list \<times> buffers" where
  "SubStepSaveFields BwdTrans m_velocity nstep st =
     (case st of (m_fields, prev, buf) \<Rightarrow>
      let nvel = length m_velocity in
      ebind (read_at m_fields 0) (\<lambda>f0.
      let npts = GetTotPoints f0 in
      if nvel = 0 then Inl DivisionByZero
      else
        let nblocks = length prev div nvel in
        if nblocks = 0 then Inl OutOfBounds
        else
          let prev' = fold (rotate_component nvel nblocks) [0..<nvel] prev in
          ebind (efold (put_previous_field BwdTrans npts m_velocity) [0..<nvel]
                   (m_fields, prev', buf)) (\<lambda>st'.
          if nstep = 0
          then efold (\<lambda>n. efold (initialise_level npts nvel m_velocity n) [1..<nblocks])
                 [0..<nvel] st'
          else Inr st')))"

text \<open>
  The saves of a run: \<open>AdvanceInTime\<close> calls \<open>SubStepSaveFields(n)\<close> at the start of step
  \<open>n\<close>, on the fields as the steps before have left them. The list holds the fields at
  each save; the history goes from one save to the next.
\<close>

fun SubStepSaveFields_calls ::
  "(real list \<Rightarrow> real list) \<Rightarrow> nat list \<Rightarrow> int \<Rightarrow> Field list list
     \<Rightarrow> nat list \<times> buffers \<Rightarrow> error + nat list \<times> buffers" where
  "SubStepSaveFields_calls BwdTrans m_velocity nstep [] hist = Inr hist"
| "SubStepSaveFields_calls BwdTrans m_velocity nstep (m_fields # rest) hist =
     (case SubStepSaveFields BwdTrans m_velocity nstep (m_fields, hist) of
        Inl e \<Rightarrow> Inl e
      | Inr (m_fields', hist') \<Rightarrow>
          SubStepSaveFields_calls BwdTrans m_velocity (nstep + 1) rest hist')"

text \<open>The snapshot that a save takes of velocity component \<open>n\<close>, and the content of
  slot \<open>i\<close> of the history for component \<open>n\<close>.\<close>

definition snapshot :: "(real list \<Rightarrow> real list) \<Rightarrow> nat list \<Rightarrow> nat \<Rightarrow> Field list \<Rightarrow> nat \<Rightarrow> real list" where
  "snapshot BwdTrans m_velocity npts m_fields n =
     take npts (BwdTrans (coeffs (m_fields ! (m_velocity ! n))))"

definition slot :: "nat \<Rightarrow> nat list \<times> buffers \<Rightarrow> nat \<Rightarrow> nat \<Rightarrow> real list" where
  "slot nvel hist i n = snd hist (fst hist ! (i * nvel + n))"

text \<open>
  A history and a list of fields that a save can work on: the entries of the history
  refer to buffers of \<open>npts\<close> values, no two to the same buffer; the fields have \<open>npts\<close>
  physical values and each velocity component is one of them, whose transform to
  physical space has \<open>npts\<close> values.
\<close>

definition history_ok :: "nat \<Rightarrow> nat list \<times> buffers \<Rightarrow> bool" where
  "history_ok npts hist =
     (distinct (fst hist) \<and> list_all (\<lambda>a. length (snd hist a) = npts) (fst hist))"

definition fields_ok :: "(real list \<Rightarrow> real list) \<Rightarrow> nat list \<Rightarrow> nat \<Rightarrow> Field list \<Rightarrow> bool" where
  "fields_ok BwdTrans m_velocity npts m_fields =
     (m_fields \<noteq> [] \<and> GetTotPoints (hd m_fields) = npts
      \<and> list_all (\<lambda>v. v < length m_fields
                        \<and> length (BwdTrans (coeffs (m_fields ! v))) = npts) m_velocity)"

text \<open>The entry that entry \<open>k\<close> of \<open>m_previousVelFields\<close> is after the rotation: the
  first block takes the last one and any other block the block before it.\<close>

definition rotated_from :: "nat \<Rightarrow> nat \<Rightarrow> nat \<Rightarrow> nat" where
  "rotated_from nvel nblocks k = (if k < nvel then k + (nblocks - 1) * nvel else k - nvel)"

section \<open>AdvanceInTime\<close>

datatype EquationType =
    eNoEquationType | eSteadyStokes | eSteadyOseen | eSteadyLinearisedNS
  | eUnsteadyStokes | eUnsteadyLinearisedNS | eUnsteadyNavierStokes
  | eSteadyNavierStokes | eUnsteadyViscoElastic

text \<open>Of the viscoelastic models only \<open>eHomogeneousBloodModel\<close> is tested for; the other
  constructor stands for any other model.\<close>

datatype ViscoElasticType = eOldroydB | eHomogeneousBloodModel

datatype HomogeneousType = eNotHomogeneous | eHomogeneous1D | eHomogeneous2D | eHomogeneous3D

text \<open>The configuration: members of the solver that a run reads and never writes.
  \<open>exps\<close> and \<open>ExpOrder\<close> are the elements of \<open>m_fields[0]\<close> and their numbers of modes,
  \<open>minsubsteps\<close> the session parameter \<open>MinSubSteps\<close>, \<open>n_filters\<close> is \<open>m_filters.size()\<close>.\<close>

record Config =
  m_timestep :: real
  m_intSteps :: int
  m_checksteps :: int
  m_energysteps :: int
  m_steadyStateSteps :: int
  m_steadyStateTol :: real
  m_subSteppingScheme :: bool
  m_equationType :: EquationType
  m_viscoelasticType :: ViscoElasticType
  m_HomogeneousType :: HomogeneousType
  m_nConvectiveFields :: nat
  m_nViscoElasticStressFields :: nat
  m_spacedim :: nat
  m_expdim :: int
  m_velocity :: "nat list"
  m_cflSafetyFactor :: real
  minsubsteps :: int
  exps :: "Exp list"
  ExpOrder :: "int list"
  n_filters :: nat

text \<open>
  What the run calls and the file does not hold: the time integration schemes and the
  transforms of the discretisation library. \<open>'i\<close> is the state of the integration
  solutions. A call of \<open>TimeIntegrate\<close> runs the operators of the solver on the fields,
  so it takes the fields and returns them with the solution vector; its first argument
  is the index of the scheme, \<open>min(n, m_intSteps - 1)\<close>. \<open>SubStepIntegrate m nsubsteps dt\<close>
  stands for the body of the loop over \<open>m\<close> in \<open>SubStepAdvance\<close>: the sub-step scheme
  started from level \<open>m\<close> of the solution, advanced \<open>nsubsteps\<close> times by \<open>dt\<close>, and the
  result stored back into level \<open>m\<close>. How a transform depends on the wave-space flag of
  its field is the library's and is not modelled.
\<close>

record 'i Ext =
  InitializeScheme :: "Field list \<Rightarrow> 'i"
  TimeIntegrate :: "int \<Rightarrow> 'i \<Rightarrow> Field list \<Rightarrow> real list list \<times> 'i \<times> Field list"
  TimeIntegrate_viscoelasticstress ::
    "int \<Rightarrow> 'i \<Rightarrow> Field list \<Rightarrow> real list list \<times> 'i \<times> Field list"
  TimeIntegrate_aggregatesize ::
    "int \<Rightarrow> 'i \<Rightarrow> Field list \<Rightarrow> real list list \<times> 'i \<times> Field list"
  SubStepIntegrate :: "int \<Rightarrow> int \<Rightarrow> fval \<Rightarrow> 'i \<Rightarrow> Field list \<Rightarrow> 'i \<times> Field list"
  FwdTrans_IterPerExp :: "real list \<Rightarrow> real list"
  BwdTrans :: "real list \<Rightarrow> real list"
  HomogeneousFwdTrans :: "real list \<Rightarrow> real list"

text \<open>
  The state of a process that runs the solver.
  \<^item> Members of the solver: the fields, the time, the step number, the integration
    solutions and the velocity history.
  \<^item> \<open>fields_array\<close>, the local array \<open>fields\<close> of \<open>AdvanceInTime\<close> that wraps the physical values of the
    convective fields and then holds what \<open>TimeIntegrate\<close> returns.
  \<^item> The function-scope statics: \<open>nchk\<close> of \<open>AdvanceInTime\<close> (\<open>static int nchk = 0\<close>),
    \<open>ncalls\<close> of \<open>SubStepAdvance\<close> (\<open>static int ncalls = 1\<close>) and \<open>previousL2\<close> of
    \<open>CalcSteadyState\<close> (\<open>static NekDouble previousL2 = 0.0\<close>). C++ initialises such a
    variable once, the first time control passes its declaration, and keeps its value
    from call to call.
  \<^item> What the run hands to its outputs, kept to state the properties: for each call
    of \<open>Checkpoint_Output\<close> the step \<open>n\<close>, the number passed and the fields at the call;
    the \<open>nint\<close> of each call of \<open>SubStepAdvance\<close>; for each call of \<open>CalcSteadyState\<close> the
    \<open>previousL2\<close> it compared with, its \<open>L2\<close> and its result; the times at which
    \<open>WriteModalEnergy\<close> wrote.
\<close>

record 'i State =
  m_fields :: "Field list"
  fields_array :: "real list list"
  m_time :: fval
  m_numstep :: int
  m_integrationSoln :: 'i
  m_previousVelFields :: "nat list \<times> buffers"
  nchk :: int
  ncalls :: int
  previousL2 :: fval
  checkpoints :: "(nat \<times> int \<times> Field list) list"
  nints :: "int list"
  steady_checks :: "(fval \<times> fval \<times> bool) list"
  energy_writes :: "fval list"

text \<open>The statics as their declarations initialise them (\<open>static int nchk = 0;\<close>,
  \<open>static int ncalls = 1;\<close>, and \<open>previousL2_initial\<close> above), and the state of a
  process that has not run the functions yet: whatever the members are, the statics
  have these values.\<close>

definition nchk_initial :: int where
  "nchk_initial = 0"

definition ncalls_initial :: int where
  "ncalls_initial = 1"

definition process_start :: "'i State \<Rightarrow> 'i State" where
  "process_start s =
     s\<lparr>nchk := nchk_initial, ncalls := ncalls_initial, previousL2 := previousL2_initial\<rparr>"

text \<open>The remainder \<open>a % b\<close> of C++ for \<open>b \<noteq> 0\<close>: the quotient is truncated towards zero,
  so the remainder has the sign of \<open>a\<close>.\<close>

definition c_rem :: "int \<Rightarrow> int \<Rightarrow> int" where
  "c_rem a b = sgn a * (\<bar>a\<bar> mod \<bar>b\<bar>)"

text \<open>The test \<open>steps && !((n+1)%steps)\<close> of the energy output, and the test
  \<open>steps && n && (!((n+1)%steps))\<close> of the checkpoint and of the steady-state check.\<close>

definition due :: "int \<Rightarrow> nat \<Rightarrow> bool" where
  "due steps n = (steps \<noteq> 0 \<and> c_rem (int n + 1) steps = 0)"

definition due_after_first :: "int \<Rightarrow> nat \<Rightarrow> bool" where
  "due_after_first steps n = (steps \<noteq> 0 \<and> n \<noteq> 0 \<and> c_rem (int n + 1) steps = 0)"

text \<open>The test of the checkpoint in the words of the specification: \<open>checkInterval > 0\<close>,
  \<open>n > 0\<close> and \<open>(n+1) mod checkInterval == 0\<close>.\<close>

definition spec_checkpoint_due :: "int \<Rightarrow> nat \<Rightarrow> bool" where
  "spec_checkpoint_due checkInterval n =
     (0 < checkInterval \<and> 0 < n \<and> (int n + 1) mod checkInterval = 0)"

text \<open>Modelled from the spec: \<open>SetPhys\<close> of a field (the discretisation library is not
  part of the file) copies an array into the physical values of the field.\<close>

definition SetPhys :: "real list \<Rightarrow> Field \<Rightarrow> error + Field" where
  "SetPhys inarray f =
     ebind (Vmath_Vcopy (length (phys f)) inarray (phys f)) (\<lambda>p. Inr (f\<lparr>phys := p\<rparr>))"

text \<open>
  \<open>SubStepAdvance(nstep)\<close>: \<open>nint = min(ncalls++, m_intSteps)\<close>, the stable step and the
  number of sub-steps, then the loop over the \<open>nint\<close> levels of the solution.
\<close>

definition SubStepAdvance :: "Config \<Rightarrow> 'i Ext \<Rightarrow> 'i State \<Rightarrow> error + 'i State" where
  "SubStepAdvance cfg ext s =
     ebind (int_add (ncalls s) 1) (\<lambda>ncalls'.
      let nint = min (ncalls s) (m_intSteps cfg);
          s1 = s\<lparr>ncalls := ncalls', nints := nints s @ [nint]\<rparr> in
      ebind (efold (\<lambda>v vs. ebind (read_at (m_fields s1) v) (\<lambda>f. Inr (vs @ [phys f])))
               (m_velocity cfg) []) (\<lambda>velfields.
      ebind (GetSubstepTimeStep (m_expdim cfg) (exps cfg) velfields (ExpOrder cfg)
               (m_cflSafetyFactor cfg)) (\<lambda>dt.
      ebind (SubStepAdvance_nsubsteps (m_timestep cfg) dt (minsubsteps cfg)) (\<lambda>nsubsteps.
      let dt' = SubStepAdvance_dt (m_timestep cfg) nsubsteps;
          (soln, flds) =
             fold (\<lambda>m (soln, flds). SubStepIntegrate ext m nsubsteps dt' soln flds)
               [0..nint - 1] (m_integrationSoln s1, m_fields s1)
      in Inr (s1\<lparr>m_integrationSoln := soln, m_fields := flds\<rparr>)))))"

text \<open>The sub-stepping of step \<open>n\<close>:
  \<^verbatim>\<open>if(m_subSteppingScheme) { SubStepSaveFields(n); SubStepAdvance(n); }\<close>\<close>

definition step_substep :: "Config \<Rightarrow> 'i Ext \<Rightarrow> nat \<Rightarrow> 'i State \<Rightarrow> error + 'i State" where
  "step_substep cfg ext n s =
     (if m_subSteppingScheme cfg then
        ebind (SubStepSaveFields (BwdTrans ext) (m_velocity cfg) (int n)
                 (m_fields s, m_previousVelFields s)) (\<lambda>(flds, hist).
        SubStepAdvance cfg ext (s\<lparr>m_fields := flds, m_previousVelFields := hist\<rparr>))
      else Inr s)"

text \<open>
  The body of the loop that follows the integration of the viscoelastic stress:
  \<^verbatim>\<open>
    m_fields[i+m_spacedim]->SetPhys(fields_viscoelasticstress[i]);
    m_fields[i+m_spacedim]->FwdTrans_IterPerExp(fields_viscoelasticstress[i],
                                                m_fields[i+m_spacedim]->UpdateCoeffs());
    m_fields[i+m_spacedim]->SetPhysState(true);
  \<close>
\<close>

definition copy_back_stress ::
  "Config \<Rightarrow> 'i Ext \<Rightarrow> real list list \<Rightarrow> nat \<Rightarrow> Field list \<Rightarrow> error + Field list" where
  "copy_back_stress cfg ext fields_viscoelasticstress i flds =
     ebind (read_at flds (i + m_spacedim cfg)) (\<lambda>f.
     ebind (read_at fields_viscoelasticstress i) (\<lambda>r.
     ebind (SetPhys r f) (\<lambda>f1.
     Inr (flds[i + m_spacedim cfg :=
            f1\<lparr>coeffs := FwdTrans_IterPerExp ext r, physState := True\<rparr>]))))"

text \<open>"Advance viscoelastic fields", the integrations: the aggregate size of the blood
  model is integrated first, and what its integration returns is not copied anywhere;
  then the viscoelastic stress. The result is \<open>fields_viscoelasticstress\<close> with the
  solution and the fields as the two integrations leave them.\<close>

definition integrate_stress ::
  "Config \<Rightarrow> 'i Ext \<Rightarrow> nat \<Rightarrow> 'i State \<Rightarrow> real list list \<times> 'i \<times> Field list" where
  "integrate_stress cfg ext n s =
     (let scheme = min (int n) (m_intSteps cfg - 1);
          (soln0, flds0) =
            (if m_viscoelasticType cfg = eHomogeneousBloodModel
             then (case TimeIntegrate_aggregatesize ext scheme (m_integrationSoln s) (m_fields s)
                   of (fields_homogeneousbloodmodel, soln, flds) \<Rightarrow> (soln, flds))
             else (m_integrationSoln s, m_fields s))
      in TimeIntegrate_viscoelasticstress ext scheme soln0 flds0)"

definition step_viscoelastic :: "Config \<Rightarrow> 'i Ext \<Rightarrow> nat \<Rightarrow> 'i State \<Rightarrow> error + 'i State" where
  "step_viscoelastic cfg ext n s =
     (if m_equationType cfg = eUnsteadyViscoElastic then
        (case integrate_stress cfg ext n s of
           (fields_viscoelasticstress, soln1, flds1) \<Rightarrow>
             ebind (efold (copy_back_stress cfg ext fields_viscoelasticstress)
                      [0..<m_nViscoElasticStressFields cfg] flds1) (\<lambda>flds2.
             Inr (s\<lparr>m_integrationSoln := soln1, m_fields := flds2\<rparr>)))
      else Inr s)"

text \<open>"Advance velocity fields", the clock, and the value that is written to the
  track-point file:
  \<^verbatim>\<open>fp7<<m_time<< " " << m_fields[m_spacedim+m_nViscoElasticStressFields]->GetPhys()[100]<< endl;\<close>\<close>

definition step_velocity :: "Config \<Rightarrow> 'i Ext \<Rightarrow> nat \<Rightarrow> 'i State \<Rightarrow> error + 'i State" where
  "step_velocity cfg ext n s =
     (case TimeIntegrate ext (min (int n) (m_intSteps cfg - 1)) (m_integrationSoln s) (m_fields s)
      of (flds', soln, mflds) \<Rightarrow>
        let s1 = s\<lparr>fields_array := flds', m_integrationSoln := soln, m_fields := mflds,
                   m_time := dadd (m_time s) (Fin (m_timestep cfg))\<rparr> in
        ebind (read_at (m_fields s1) (m_spacedim cfg + m_nViscoElasticStressFields cfg)) (\<lambda>f.
        ebind (read_at (phys f) 100) (\<lambda>trackpoint. Inr s1)))"

text \<open>\<open>WriteModalEnergy\<close>: what it computes goes to the file; a decomposition in two or
  three directions stops at its assertion.\<close>

definition WriteModalEnergy :: "Config \<Rightarrow> 'i State \<Rightarrow> error + 'i State" where
  "WriteModalEnergy cfg s =
     (if m_HomogeneousType cfg \<noteq> eNotHomogeneous then
        (if m_HomogeneousType cfg = eHomogeneous1D
         then (if m_nConvectiveFields cfg \<le> length (m_fields s)
               then Inr (s\<lparr>energy_writes := energy_writes s @ [m_time s]\<rparr>)
               else Inl OutOfBounds)
         else Inl (AssertFail ''3D Homogeneous 2D energy dumping not implemented yet''))
      else
        ebind (efold (\<lambda>i flds. ebind (read_at flds i) (\<lambda>f. Inr (flds[i := f\<lparr>physState := True\<rparr>])))
                 [0..<m_nConvectiveFields cfg] (m_fields s)) (\<lambda>flds.
        Inr (s\<lparr>m_fields := flds, energy_writes := energy_writes s @ [m_time s]\<rparr>)))"

definition step_energy :: "Config \<Rightarrow> nat \<Rightarrow> 'i State \<Rightarrow> error + 'i State" where
  "step_energy cfg n s = (if due (m_energysteps cfg) n then WriteModalEnergy cfg s else Inr s)"

text \<open>
  The checkpoint of step \<open>n\<close> ("dump data in m_fields->m_coeffs to file"). With a
  decomposition in one direction every field leaves wave space, is transformed to
  physical space and marked as such before the dump, and is transformed back and marked
  as not physical after it; otherwise what \<open>TimeIntegrate\<close> returned is copied into the
  convective fields. Either way \<open>nchk\<close> is incremented and passed to
  \<open>Checkpoint_Output\<close>.
\<close>

definition step_checkpoint :: "Config \<Rightarrow> 'i Ext \<Rightarrow> nat \<Rightarrow> 'i State \<Rightarrow> error + 'i State" where
  "step_checkpoint cfg ext n s =
     (if due_after_first (m_checksteps cfg) n then
        (if m_HomogeneousType cfg = eHomogeneous1D then
           (let flds1 = map (\<lambda>f. f\<lparr>waveSpace := False, phys := BwdTrans ext (coeffs f),
                                     physState := True\<rparr>) (m_fields s) in
            ebind (int_add (nchk s) 1) (\<lambda>nchk'.
            let flds2 = map (\<lambda>f. f\<lparr>waveSpace := True, phys := HomogeneousFwdTrans ext (phys f),
                                     physState := False\<rparr>) flds1
            in Inr (s\<lparr>m_fields := flds2, nchk := nchk',
                      checkpoints := checkpoints s @ [(n, nchk', flds1)]\<rparr>)))
         else
           ebind (efold (\<lambda>i flds.
                    ebind (read_at flds i) (\<lambda>f.
                    ebind (read_at (fields_array s) i) (\<lambda>r.
                    ebind (SetPhys r f) (\<lambda>f1.
                    Inr (flds[i := f1\<lparr>physState := True\<rparr>])))))
                  [0..<m_nConvectiveFields cfg] (m_fields s)) (\<lambda>flds1.
           ebind (int_add (nchk s) 1) (\<lambda>nchk'.
           Inr (s\<lparr>m_fields := flds1, nchk := nchk',
                   checkpoints := checkpoints s @ [(n, nchk', flds1)]\<rparr>))))
      else Inr s)"

text \<open>The steady-state check of step \<open>n\<close>; the boolean tells the loop to \<open>break\<close>.\<close>

definition step_steady :: "Config \<Rightarrow> nat \<Rightarrow> 'i State \<Rightarrow> error + bool \<times> 'i State" where
  "step_steady cfg n s =
     (if due_after_first (m_steadyStateSteps cfg) n then
        ebind (CalcSteadyState (m_fields s) (m_steadyStateTol cfg) (previousL2 s)) (\<lambda>(r, L2).
        Inr (r, s\<lparr>previousL2 := L2,
                  steady_checks := steady_checks s @ [(previousL2 s, L2, r)]\<rparr>))
      else Inr (False, s))"

text \<open>The end of a step that did not break: with a filter registered the convective
  fields are transformed into coefficient space; then the filters are updated and the
  second track point is written:
  \<^verbatim>\<open>fp8<<m_time<< " " << m_fields[m_spacedim-1]->GetPhys()[100]<< endl;\<close>\<close>

definition step_filters :: "Config \<Rightarrow> 'i Ext \<Rightarrow> 'i State \<Rightarrow> error + 'i State" where
  "step_filters cfg ext s =
     ebind (if 0 < n_filters cfg
            then efold (\<lambda>i flds.
                    ebind (read_at flds i) (\<lambda>f.
                    ebind (read_at (fields_array s) i) (\<lambda>r.
                    Inr (flds[i := f\<lparr>coeffs := FwdTrans_IterPerExp ext r, physState := False\<rparr>]))))
                  [0..<m_nConvectiveFields cfg] (m_fields s)
            else Inr (m_fields s)) (\<lambda>flds.
     if m_spacedim cfg = 0 then Inl OutOfBounds
     else
       ebind (read_at flds (m_spacedim cfg - 1)) (\<lambda>f.
       ebind (read_at (phys f) 100) (\<lambda>trackpoint.
       Inr (s\<lparr>m_fields := flds\<rparr>))))"

text \<open>The body of the loop \<open>for(n = 0; n < nsteps; ++n)\<close>.\<close>

definition AdvanceInTime_step ::
  "Config \<Rightarrow> 'i Ext \<Rightarrow> nat \<Rightarrow> 'i State \<Rightarrow> error + bool \<times> 'i State" where
  "AdvanceInTime_step cfg ext n s =
     ebind (step_substep cfg ext n (s\<lparr>m_numstep := int n\<rparr>)) (\<lambda>s1.
     ebind (step_viscoelastic cfg ext n s1) (\<lambda>s2.
     ebind (step_velocity cfg ext n s2) (\<lambda>s3.
     ebind (step_energy cfg n s3) (\<lambda>s4.
     ebind (step_checkpoint cfg ext n s4) (\<lambda>s5.
     ebind (step_steady cfg n s5) (\<lambda>(stop, s6).
     if stop then Inr (True, s6)
     else ebind (step_filters cfg ext s6) (\<lambda>s7. Inr (False, s7))))))))"

text \<open>The loop, with the number of steps still to run and the step \<open>n\<close> to run next.\<close>

fun AdvanceInTime_loop ::
  "Config \<Rightarrow> 'i Ext \<Rightarrow> nat \<Rightarrow> nat \<Rightarrow> 'i State \<Rightarrow> error + 'i State" where
  "AdvanceInTime_loop cfg ext 0 n s = Inr s"
| "AdvanceInTime_loop cfg ext (Suc k) n s =
     (case AdvanceInTime_step cfg ext n s of
        Inl e \<Rightarrow> Inl e
      | Inr (stop, s') \<Rightarrow> if stop then Inr s' else AdvanceInTime_loop cfg ext k (Suc n) s')"

text \<open>
  \<open>AdvanceInTime(nsteps)\<close>. Before the loop the time is set to the time step, with a
  decomposition in one direction the fields are taken to wave space, \<open>fields_array\<close> wraps the
  physical values of the convective fields and the integration is initialised. After
  the loop the fields are brought back to physical space. None of this touches \<open>nchk\<close>,
  \<open>ncalls\<close> or \<open>previousL2\<close>. The schemes are read at \<open>m_intSteps - 1\<close> and at
  \<open>min(n, m_intSteps - 1)\<close>, indices of an array of \<open>m_intSteps\<close> schemes.
\<close>

definition AdvanceInTime :: "Config \<Rightarrow> 'i Ext \<Rightarrow> int \<Rightarrow> 'i State \<Rightarrow> error + 'i State" where
  "AdvanceInTime cfg ext nsteps s =
     ebind (read_at (m_fields s) 0) (\<lambda>f0.
     if m_intSteps cfg < 1 then Inl OutOfBounds else
     let flds0 = (if m_HomogeneousType cfg = eHomogeneous1D
                  then map (\<lambda>f. f\<lparr>phys := HomogeneousFwdTrans ext (phys f),
                                    waveSpace := True, physState := False\<rparr>) (m_fields s)
                  else m_fields s) in
     ebind (efold (\<lambda>i w. ebind (read_at flds0 i) (\<lambda>f. Inr (w @ [phys f])))
              [0..<m_nConvectiveFields cfg] []) (\<lambda>w.
     ebind (if m_equationType cfg = eUnsteadyViscoElastic
            then ebind (if m_viscoelasticType cfg = eHomogeneousBloodModel
                        then read_at flds0 (m_nViscoElasticStressFields cfg + m_spacedim cfg)
                        else Inr f0) (\<lambda>aggregate.
                 efold (\<lambda>i w. ebind (read_at flds0 (i + m_spacedim cfg)) (\<lambda>f. Inr (w @ [phys f])))
                   [0..<m_nViscoElasticStressFields cfg] [])
            else Inr []) (\<lambda>fields_viscoelasticstress.
     ebind (AdvanceInTime_loop cfg ext (nat nsteps) 0
              (s\<lparr>m_time := Fin (m_timestep cfg), m_fields := flds0, fields_array := w,
                 m_integrationSoln := InitializeScheme ext flds0\<rparr>)) (\<lambda>s'.
     if m_HomogeneousType cfg = eHomogeneous1D
     then Inr (s'\<lparr>m_fields := map (\<lambda>f. f\<lparr>waveSpace := False, phys := BwdTrans ext (coeffs f),
                                            physState := True\<rparr>) (m_fields s')\<rparr>)
     else
       ebind (efold (\<lambda>i flds.
                ebind (read_at flds i) (\<lambda>f.
                ebind (read_at (fields_array s') i) (\<lambda>r.
                ebind (SetPhys r f) (\<lambda>f1.
                Inr (flds[i := f1\<lparr>physState := True\<rparr>])))))
              [0..<m_nConvectiveFields cfg] (m_fields s')) (\<lambda>flds.
       Inr (s'\<lparr>m_fields := flds\<rparr>))))))"

subsection \<open>A small run\<close>

text \<open>
  A configuration, collaborators and a state to run the model on: two fields of 101
  points (the track points read the value at index 100), the first the velocity and the
  only convective field; no sub-stepping, no energy output, no steady-state check, no
  filter, a checkpoint every second step. The integrators return the physical values
  they find and the transforms change nothing.
\<close>

definition small_field :: Field where
  "small_field = \<lparr>phys = replicate 101 0, coeffs = [0], physState = False, waveSpace = False\<rparr>"

definition small_cfg :: Config where
  "small_cfg =
     \<lparr>m_timestep = 1, m_intSteps = 1, m_checksteps = 2, m_energysteps = 0,
      m_steadyStateSteps = 0, m_steadyStateTol = 0, m_subSteppingScheme = False,
      m_equationType = eUnsteadyNavierStokes, m_viscoelasticType = eOldroydB,
      m_HomogeneousType = eNotHomogeneous, m_nConvectiveFields = 1,
      m_nViscoElasticStressFields = 0, m_spacedim = 1, m_expdim = 2, m_velocity = [0],
      m_cflSafetyFactor = 1, minsubsteps = 0, exps = [], ExpOrder = [], n_filters = 0\<rparr>"

definition small_ext :: "unit Ext" where
  "small_ext =
     \<lparr>InitializeScheme = (\<lambda>flds. ()),
      TimeIntegrate = (\<lambda>scheme soln flds. (map phys (take 1 flds), soln, flds)),
      TimeIntegrate_viscoelasticstress = (\<lambda>scheme soln flds. ([[7]], soln, flds)),
      TimeIntegrate_aggregatesize = (\<lambda>scheme soln flds. ([], soln, flds)),
      SubStepIntegrate = (\<lambda>m nsubsteps dt soln flds. (soln, flds)),
      FwdTrans_IterPerExp = (\<lambda>x. x),
      BwdTrans = (\<lambda>x. x),
      HomogeneousFwdTrans = (\<lambda>x. x)\<rparr>"

definition small_state :: "unit State" where
  "small_state =
     \<lparr>m_fields = [small_field, small_field], fields_array = [], m_time = Fin 0, m_numstep = 0,
      m_integrationSoln = (), m_previousVelFields = ([], \<lambda>a. []),
      nchk = 0, ncalls = 1, previousL2 = Fin 0,
      checkpoints = [], nints = [], steady_checks = [], energy_writes = []\<rparr>"

text \<open>
  A second example, with sub-stepping and a steady-state check every second step: three
  fields, two of them the velocity, on one element; an integrator that adds 1 to every
  coefficient at each step, so that the metric of the steady-state check grows; a
  transform to physical space that gives a velocity of 0, so that the stable step is
  infinite and each outer step is one sub-step; a history of two levels.
\<close>

definition demo_cfg :: Config where
  "demo_cfg =
     small_cfg\<lparr>m_intSteps := 2, m_steadyStateSteps := 2, m_steadyStateTol := 1,
               m_subSteppingScheme := True, m_nConvectiveFields := 2, m_spacedim := 2,
               m_velocity := [0, 1],
               exps := [\<lparr>ExpTotPoints = 1, Gtype = eRegular, Gmat = [[1], [0], [0], [1]]\<rparr>],
               ExpOrder := [2]\<rparr>"

definition demo_ext :: "unit Ext" where
  "demo_ext =
     small_ext\<lparr>TimeIntegrate :=
                 (\<lambda>scheme soln flds.
                    (map phys (take 2 flds), soln,
                     map (\<lambda>f. f\<lparr>coeffs := map (\<lambda>c. c + 1) (coeffs f)\<rparr>) flds)),
               BwdTrans := (\<lambda>c. replicate 101 0)\<rparr>"

definition demo_state :: "unit State" where
  "demo_state =
     small_state\<lparr>m_fields := [small_field, small_field, small_field],
                 m_previousVelFields := ([0, 1, 2, 3], \<lambda>a. replicate 101 0)\<rparr>"

text \<open>The factor that node \<open>j\<close>, at time \<open>-j * dt\<close>, contributes to the Lagrange
  weight of node \<open>i\<close> at the offset \<open>toff\<close>, as the specification writes it.\<close>

definition node_ratio :: "real \<Rightarrow> real \<Rightarrow> nat \<Rightarrow> nat \<Rightarrow> real" where
  "node_ratio dt toff i j = (real j * dt + toff) / (real j * dt - real i * dt)"

section \<open>Properties\<close>

subsection \<open>Rounding to a double\<close>

lemma rne_bounds: "\<bar>of_int (rne y) - y\<bar> \<le> 1 / 2"
  unfolding rne_def Let_def by (auto simp: abs_le_iff)

lemma rne_of_int: "rne (of_int m) = m"
  unfolding rne_def Let_def by simp

lemma rne_eq: "of_int n - 1 / 2 < y \<Longrightarrow> y < of_int n + 1 / 2 \<Longrightarrow> rne y = n"
proof -
  assume a: "of_int n - 1 / 2 < y" "y < of_int n + 1 / 2"
  have b: "\<bar>of_int (rne y) - y\<bar> \<le> 1 / 2" by (rule rne_bounds)
  have "real_of_int (rne y) < real_of_int (n + 1)" using a b unfolding of_int_add by linarith
  moreover have "real_of_int (n - 1) < real_of_int (rne y)" using a b unfolding of_int_diff by linarith
  ultimately have "rne y < n + 1" "n - 1 < rne y" by (simp_all only: of_int_less_iff)
  then show ?thesis by simp
qed

lemma rne_nonneg: "0 \<le> y \<Longrightarrow> 0 \<le> rne y"
  unfolding rne_def Let_def by (auto simp: add_nonneg_pos le_floor_iff intro: add_nonneg_nonneg)

lemma floor_log2: 
  assumes "2 powr of_int e \<le> \<bar>x\<bar>" "\<bar>x\<bar> < 2 powr of_int (e + 1)"
  shows "\<lfloor>log 2 \<bar>x\<bar>\<rfloor> = e"
proof -
  have pos: "0 < \<bar>x\<bar>" using assms(1) by (smt (verit) powr_gt_zero)
  have "of_int e \<le> log 2 \<bar>x\<bar>" using assms(1) pos by (simp add: le_log_iff)
  moreover have "log 2 \<bar>x\<bar> < of_int (e + 1)" using assms(2) pos by (simp add: log_less_iff)
  ultimately show ?thesis by (simp add: floor_eq_iff)
qed

lemma round_double_nonneg: "0 \<le> x \<Longrightarrow> 0 \<le> round_double x"
  unfolding round_double_def using rne_nonneg [of "x / 2 powr of_int (ulp_exp x)"] by simp

lemma round_double_error:
  "\<bar>round_double x - x\<bar> \<le> 2 powr of_int (ulp_exp x) / 2"
proof (cases "x = 0")
  case True then show ?thesis by (simp add: round_double_def)
next
  case False
  define u where "u = (2::real) powr of_int (ulp_exp x)"
  have u: "0 < u" by (simp add: u_def)
  have "\<bar>of_int (rne (x / u)) - x / u\<bar> \<le> 1 / 2" by (rule rne_bounds)
  then have "\<bar>of_int (rne (x / u)) - x / u\<bar> * u \<le> 1 / 2 * u"
    using u by (simp only: mult_le_cancel_right_pos)
  moreover have "\<bar>of_int (rne (x / u)) - x / u\<bar> * u = \<bar>of_int (rne (x / u)) * u - x\<bar>"
    using u by (simp add: abs_mult_pos' [symmetric] field_simps del: abs_mult_pos')
  ultimately have "\<bar>of_int (rne (x / u)) * u - x\<bar> \<le> u / 2" by linarith
  moreover have "round_double x = of_int (rne (x / u)) * u"
    using False by (simp add: round_double_def u_def)
  ultimately show ?thesis unfolding u_def by simp
qed


lemma ulp_exp_eq:
  assumes "2 powr of_int e \<le> \<bar>x\<bar>" "\<bar>x\<bar> < 2 powr of_int (e + 1)" "- 1022 \<le> e"
  shows "ulp_exp x = e - 52"
  unfolding ulp_exp_def floor_log2 [OF assms(1,2)] using assms(3) by simp

lemma ulp_exp_le:
  assumes "\<bar>x\<bar> < 2 powr of_int (k + 53)" "- 1074 \<le> k" "x \<noteq> 0"
  shows "ulp_exp x \<le> k"
proof -
  have "log 2 \<bar>x\<bar> < of_int (k + 53)" using assms(1,3) by (simp add: log_less_iff)
  then have "\<lfloor>log 2 \<bar>x\<bar>\<rfloor> < k + 53" by (simp only: floor_less_iff)
  then show ?thesis unfolding ulp_exp_def using assms(2) by simp
qed

lemma round_double_exact_strict:
  assumes x: "x = of_int m * 2 powr of_int k" and m: "\<bar>m\<bar> < 2 ^ 53" and k: "- 1074 \<le> k"
  shows "round_double x = x"
proof (cases "x = 0")
  case True then show ?thesis by (simp add: round_double_def)
next
  case False
  define u where "u = ulp_exp x"
  have "\<bar>x\<bar> = of_int \<bar>m\<bar> * 2 powr of_int k" by (simp add: x abs_mult)
  also have "\<dots> < 2 ^ 53 * 2 powr of_int k"
  proof -
    have "real_of_int \<bar>m\<bar> < real_of_int (2 ^ 53)" using m by (simp only: of_int_less_iff)
    then have "real_of_int \<bar>m\<bar> < 2 ^ 53" by simp
    then show ?thesis by (simp only: mult_less_cancel_right_pos powr_gt_zero)
  qed
  also have "\<dots> = 2 powr of_int (k + 53)" by (simp add: powr_add powr_numeral)
  finally have "u \<le> k" unfolding u_def using ulp_exp_le k False by blast
  then obtain d :: nat where d: "k = u + int d" by (metis zadd_int_left nonneg_int_cases diff_ge_0_iff_ge add_diff_cancel_left' add.commute diff_add_cancel)
  have "x / 2 powr of_int u = of_int m * 2 powr (of_int k - of_int u)"
    by (simp add: x powr_diff)
  also have "\<dots> = of_int m * 2 ^ d" by (simp add: d powr_realpow)
  also have "\<dots> = of_int (m * 2 ^ d)" by simp
  finally have "rne (x / 2 powr of_int u) = m * 2 ^ d" by (simp only: rne_of_int)
  then have "round_double x = of_int (m * 2 ^ d) * 2 powr of_int u"
    using False by (simp add: round_double_def u_def)
  also have "\<dots> = of_int m * (2 powr of_int (int d) * 2 powr of_int u)"
    by (simp add: powr_realpow)
  also have "\<dots> = of_int m * 2 powr of_int k" by (simp add: d powr_add [symmetric] add.commute)
  finally show ?thesis by (simp add: x)
qed

lemma round_double_exact:
  assumes x: "x = of_int m * 2 powr of_int k" and m: "\<bar>m\<bar> \<le> 2 ^ 53" and k: "- 1074 \<le> k"
  shows "round_double x = x"
proof (cases "\<bar>m\<bar> < 2 ^ 53")
  case True then show ?thesis using round_double_exact_strict x k by blast
next
  case False
  then have "\<bar>m\<bar> = 2 ^ 53" using m by simp
  then have "m = 2 ^ 53 \<or> m = - (2 ^ 53)" by linarith
  then obtain m' :: int where m': "m = 2 * m'" "\<bar>m'\<bar> < 2 ^ 53" by auto
  have "x = of_int m' * 2 powr of_int (k + 1)" by (simp add: x m' powr_add)
  then show ?thesis using round_double_exact_strict [of x m' "k + 1"] m' k by simp
qed

lemma round_double_of_int: "\<bar>m\<bar> \<le> 2 ^ 53 \<Longrightarrow> round_double (of_int m) = of_int m"
  using round_double_exact [of "of_int m" m 0] by simp

lemma round_double_relative:
  assumes "2 powr (- 1022) \<le> \<bar>x\<bar>"
  shows "\<bar>round_double x - x\<bar> \<le> \<bar>x\<bar> / 2 ^ 53"
proof -
  have pos: "0 < \<bar>x\<bar>" using assms by (smt (verit) powr_gt_zero)
  define e where "e = \<lfloor>log 2 \<bar>x\<bar>\<rfloor>"
  have "- 1022 \<le> log 2 \<bar>x\<bar>" using assms pos by (simp add: le_log_iff)
  then have e: "- 1022 \<le> e" unfolding e_def by (simp add: le_floor_iff)
  have "of_int e \<le> log 2 \<bar>x\<bar>" unfolding e_def by simp
  then have le: "2 powr of_int e \<le> \<bar>x\<bar>" using pos by (simp add: le_log_iff)
  have "ulp_exp x = e - 52" unfolding ulp_exp_def e_def [symmetric] using e by simp
  then have "\<bar>round_double x - x\<bar> \<le> 2 powr of_int (e - 52) / 2"
    using round_double_error [of x] by simp
  also have "\<dots> = 2 powr of_int e / 2 ^ 53" by (simp add: powr_diff powr_numeral)
  also have "\<dots> \<le> \<bar>x\<bar> / 2 ^ 53" using le by (simp add: divide_right_mono)
  finally show ?thesis .
qed


lemma rne_abs_le:
  assumes "\<bar>y\<bar> \<le> of_int n"
  shows "\<bar>rne y\<bar> \<le> n"
proof -
  have b: "\<bar>of_int (rne y) - y\<bar> \<le> 1 / 2" by (rule rne_bounds)
  have "real_of_int (rne y) < real_of_int (n + 1)" using assms b unfolding of_int_add by linarith
  moreover have "real_of_int (- n - 1) < real_of_int (rne y)"
    using assms b unfolding of_int_diff of_int_minus by linarith
  ultimately have "rne y < n + 1" "- n - 1 < rne y" by (simp_all only: of_int_less_iff)
  then show ?thesis by linarith
qed

lemma round_double_idem: "round_double (round_double x) = round_double x"
proof (cases "x = 0")
  case True then show ?thesis by (simp add: round_double_def)
next
  case False
  define u where "u = ulp_exp x"
  define M where "M = rne (x / 2 powr of_int u)"
  have pos: "0 < \<bar>x\<bar>" using False by simp
  have u1: "- 1074 \<le> u" unfolding u_def ulp_exp_def by simp
  have "log 2 \<bar>x\<bar> < of_int (\<lfloor>log 2 \<bar>x\<bar>\<rfloor> + 1)" by linarith
  moreover have "\<lfloor>log 2 \<bar>x\<bar>\<rfloor> + 1 \<le> u + 53" unfolding u_def ulp_exp_def by simp
  then have "real_of_int (\<lfloor>log 2 \<bar>x\<bar>\<rfloor> + 1) \<le> real_of_int (u + 53)" by (simp only: of_int_le_iff)
  ultimately have "log 2 \<bar>x\<bar> < of_int (u + 53)" by linarith
  then have "\<bar>x\<bar> < 2 powr of_int (u + 53)" using pos by (simp add: log_less_iff)
  also have "\<dots> = 2 ^ 53 * 2 powr of_int u" by (simp add: powr_add powr_numeral)
  finally have "\<bar>x\<bar> / 2 powr of_int u < 2 ^ 53" by (simp add: pos_divide_less_eq)
  then have "\<bar>x / 2 powr of_int u\<bar> \<le> real_of_int (2 ^ 53)" by simp
  then have M: "\<bar>M\<bar> \<le> 2 ^ 53" unfolding M_def by (rule rne_abs_le)
  have "round_double x = of_int M * 2 powr of_int u"
    using False by (simp add: round_double_def u_def M_def)
  then show ?thesis using round_double_exact [of "round_double x" M u] M u1 by simp
qed

lemma round_double_dyadic:
  "\<bar>m\<bar> \<le> 2 ^ 53 \<Longrightarrow> n \<le> 1074 \<Longrightarrow> round_double (of_int m / 2 ^ n) = of_int m / 2 ^ n"
  using round_double_exact [of "of_int m / 2 ^ n" m "- int n"]
  by (simp add: powr_minus powr_realpow divide_inverse)

lemma round_double_numeral [simp]:
  "(numeral n :: int) \<le> 2 ^ 53 \<Longrightarrow> round_double (numeral n) = numeral n"
  using round_double_of_int [of "numeral n"] by simp

lemma round_double_0 [simp]: "round_double 0 = 0"
  by (simp add: round_double_def)

lemma round_double_1 [simp]: "round_double 1 = 1"
  using round_double_of_int [of 1] by simp

lemma max_double_large: "2 ^ 53 \<le> max_double"
  unfolding max_double_def by simp

lemma fround_small:
  assumes "\<bar>round_double x\<bar> \<le> 2 ^ 53"
  shows "fround x = Fin (round_double x)"
  using assms max_double_large unfolding fround_def Let_def by (simp add: abs_le_iff)

lemma round_double_near:
  assumes "2 powr (- 1022) \<le> \<bar>x\<bar>"
  shows "x - \<bar>x\<bar> / 2 ^ 53 \<le> round_double x" and "round_double x \<le> x + \<bar>x\<bar> / 2 ^ 53"
  using round_double_relative [OF assms] by linarith+

lemma normal_range:
  assumes "1 / 2 ^ n \<le> \<bar>x\<bar>" "n \<le> 1022"
  shows "2 powr (- 1022) \<le> \<bar>x :: real\<bar>"
proof -
  have "(2::real) powr (- 1022) \<le> 2 powr (- real n)" using assms(2) by (simp only: powr_mono)
  also have "\<dots> = 1 / 2 ^ n" by (simp add: powr_minus powr_realpow divide_inverse)
  finally show ?thesis using assms(1) by linarith
qed

lemma round_double_eval:
  assumes "2 powr of_int e \<le> \<bar>x\<bar>" "\<bar>x\<bar> < 2 powr of_int (e + 1)" "- 1022 \<le> e"
    and "of_int n - 1 / 2 < x / 2 powr of_int (e - 52)"
    and "x / 2 powr of_int (e - 52) < of_int n + 1 / 2"
  shows "round_double x = of_int n * 2 powr of_int (e - 52)"
proof -
  have u: "ulp_exp x = e - 52" using assms(1,2,3) by (rule ulp_exp_eq)
  have "x \<noteq> 0" using assms(1) by (smt (verit) powr_gt_zero)
  moreover have "rne (x / 2 powr of_int (e - 52)) = n" using assms(4,5) by (rule rne_eq)
  ultimately show ?thesis by (simp add: round_double_def u)
qed

lemma fround_cases:
  "fround x = PInf \<and> max_double < round_double x
   \<or> fround x = MInf \<and> round_double x < - max_double
   \<or> fround x = Fin (round_double x) \<and> \<bar>round_double x\<bar> \<le> max_double"
  unfolding fround_def Let_def by auto

lemma fround_idem: "fround x = Fin r \<Longrightarrow> fround r = Fin r"
  using fround_cases [of x] unfolding fround_def Let_def
  by (auto simp: round_double_idem abs_le_iff)

lemma max_double_pos: "0 < max_double"
  unfolding max_double_def by simp

lemma fround_nonneg: "0 \<le> x \<Longrightarrow> nonneg_double (fround x)"
proof -
  assume "0 \<le> x"
  then have r: "0 \<le> round_double x" by (rule round_double_nonneg)
  from fround_cases [of x] show ?thesis
  proof (elim disjE conjE)
    assume "fround x = PInf" then show ?thesis by (simp add: nonneg_double_def)
  next
    assume "round_double x < - max_double"
    then show ?thesis using r max_double_pos by linarith
  next
    assume f: "fround x = Fin (round_double x)"
    then have "fround (round_double x) = Fin (round_double x)" by (rule fround_idem)
    then show ?thesis using r by (simp add: nonneg_double_def f)
  qed
qed

lemma nonneg_double_cases:
  "nonneg_double x \<Longrightarrow> (\<exists>v. x = Fin v \<and> 0 \<le> v \<and> fround v = Fin v) \<or> x = PInf"
  by (cases x) (simp_all add: nonneg_double_def)

lemma dadd_nonneg: "nonneg_double x \<Longrightarrow> nonneg_double y \<Longrightarrow> nonneg_double (dadd x y)"
  by (cases x; cases y) (simp_all add: nonneg_double_def fround_nonneg [unfolded nonneg_double_def])

lemma foldl_dadd_nonneg:
  "nonneg_double acc \<Longrightarrow> list_all nonneg_double xs \<Longrightarrow> nonneg_double (foldl dadd acc xs)"
  by (induction xs arbitrary: acc) (simp_all add: dadd_nonneg)

lemma Fin0_nonneg: "nonneg_double (Fin 0)"
  by (simp add: nonneg_double_def fround_def max_double_def)

lemma dsum_nonneg: "list_all nonneg_double xs \<Longrightarrow> nonneg_double (dsum xs)"
  unfolding dsum_def by (rule foldl_dadd_nonneg [OF Fin0_nonneg])

lemma self_dot_nonneg: "nonneg_double (self_dot cs)"
  unfolding self_dot_def by (rule dsum_nonneg) (simp add: list_all_iff fround_nonneg)

lemma spec_L2_nonneg: "nonneg_double (spec_L2 fs)"
  unfolding spec_L2_def by (rule dsum_nonneg) (simp add: list_all_iff self_dot_nonneg)

lemma fround_numeral [simp]:
  "(numeral n :: int) \<le> 2 ^ 53 \<Longrightarrow> fround (numeral n) = Fin (numeral n)"
  by (simp add: fround_small)

lemma fround_0 [simp]: "fround 0 = Fin 0"
  by (simp add: fround_small)

lemma fround_1 [simp]: "fround 1 = Fin 1"
  by (simp add: fround_small)

lemma fround_dyadic:
  assumes "\<bar>m\<bar> \<le> 2 ^ 53" "n \<le> 1074" "\<bar>real_of_int m / 2 ^ n\<bar> \<le> 2 ^ 53"
  shows "fround (of_int m / 2 ^ n) = Fin (of_int m / 2 ^ n)"
  using assms by (simp add: fround_small round_double_dyadic)

lemma round_double_underflow:
  assumes "\<bar>x\<bar> < 2 powr (- 1075)"
  shows "round_double x = 0"
proof (cases "x = 0")
  case True then show ?thesis by simp
next
  case False
  then have pos: "0 < \<bar>x\<bar>" by simp
  have "(2::real) powr (- 1075) \<le> 2 powr (- 1022)" by (simp only: powr_mono) 
  then have "\<bar>x\<bar> < 2 powr (- 1022)" using assms by linarith
  then have "log 2 \<bar>x\<bar> < - 1022" using pos by (simp add: log_less_iff)
  then have "\<lfloor>log 2 \<bar>x\<bar>\<rfloor> < - 1022" by (simp add: floor_less_iff)
  then have u: "ulp_exp x = - 1074" unfolding ulp_exp_def by simp
  have "(2::real) powr (- 1075) = 2 powr (- 1074) / 2" by (simp add: powr_diff [of 2 "- 1074" 1, simplified])
  then have "\<bar>x\<bar> / 2 powr (- 1074) < 1 / 2" using assms by (simp add: pos_divide_less_eq)
  then have "\<bar>x / 2 powr (- 1074)\<bar> < 1 / 2" by simp
  then have "real_of_int 0 - 1 / 2 < x / 2 powr (- 1074)"
    and "x / 2 powr (- 1074) < real_of_int 0 + 1 / 2" by linarith+
  then have "rne (x / 2 powr (- 1074)) = 0" by (rule rne_eq)
  then show ?thesis using False by (simp add: round_double_def u)
qed

subsection \<open>The number of sub-steps\<close>

lemma nsubsteps_finite:
  assumes d: "0 < d" and q: "d < t \<longrightarrow> round_double (t / d) < 2 ^ 31 - 1"
  shows "SubStepAdvance_nsubsteps t (Fin d) m =
           Inr (max m (if d < t then \<lfloor>round_double (t / d)\<rfloor> + 1 else 1))"
proof (cases "d < t")
  case True
  let ?q = "round_double (t / d)"
  have "0 \<le> t / d" using d True by simp
  then have q0: "0 \<le> ?q" by (rule round_double_nonneg)
  have q1: "?q < 2 ^ 31 - 1" using q True by simp
  then have "\<bar>?q\<bar> \<le> 2 ^ 53" using q0 by simp
  then have div: "ddiv (Fin t) (Fin d) = Fin ?q" using d by (simp add: fround_small)
  have f0: "0 \<le> \<lfloor>?q\<rfloor>" using q0 by simp
  have "?q < real_of_int (2 ^ 31 - 1)" using q1 by simp
  then have f1: "\<lfloor>?q\<rfloor> < 2 ^ 31 - 1" by (simp only: floor_less_iff)
  have cast: "c_int ?q = Inr \<lfloor>?q\<rfloor>"
    using q0 f0 f1 by (simp add: c_int_def INT_MIN_def INT_MAX_def)
  have add: "int_add \<lfloor>?q\<rfloor> 1 = Inr (\<lfloor>?q\<rfloor> + 1)"
    using f0 f1 by (simp add: int_add_def INT_MIN_def INT_MAX_def)
  show ?thesis
    using True by (simp add: SubStepAdvance_nsubsteps_def div cast add ebind_def del: ddiv.simps)
next
  case False
  then show ?thesis by (simp add: SubStepAdvance_nsubsteps_def)
qed

lemma double_three_tenths:
  "29 / 100 \<le> round_double (3 / 10)" "round_double (3 / 10) \<le> 31 / 100"
proof -
  have n: "2 powr (- 1022) \<le> \<bar>3 / 10 :: real\<bar>" by (rule normal_range [of 2]) simp_all
  show "29 / 100 \<le> round_double (3 / 10)" using round_double_near(1) [OF n] by simp
  show "round_double (3 / 10) \<le> 31 / 100" using round_double_near(2) [OF n] by simp
qed

lemma quotient_by_three_tenths:
  "3 \<le> round_double (1 / round_double (3 / 10))" "round_double (1 / round_double (3 / 10)) < 4"
proof -
  define d where "d = round_double (3 / 10)"
  have d: "29 / 100 \<le> d" "d \<le> 31 / 100" unfolding d_def by (rule double_three_tenths)+
  have lo: "100 / 31 \<le> 1 / d" using d by (simp add: field_simps)
  have hi: "1 / d \<le> 100 / 29" using d by (simp add: field_simps)
  have "1 \<le> \<bar>1 / d\<bar>" using lo by linarith
  then have n: "2 powr (- 1022) \<le> \<bar>1 / d\<bar>" by (intro normal_range [of 0]) simp_all
  have "\<bar>1 / d\<bar> \<le> 4" using lo hi by linarith
  then have a: "\<bar>1 / d\<bar> / 2 ^ 53 \<le> 1 / 100" by simp
  show "3 \<le> round_double (1 / round_double (3 / 10))"
    using round_double_near(1) [OF n] lo a unfolding d_def [symmetric] by linarith
  show "round_double (1 / round_double (3 / 10)) < 4"
    using round_double_near(2) [OF n] hi a unfolding d_def [symmetric] by linarith
qed

lemma double_one_tenth: "round_double (1 / 10) = 3602879701896397 / 2 ^ 55"
  using round_double_eval [of "- 4" "1 / 10" 7205759403792794]
  by (simp add: powr_minus powr_numeral field_simps)

lemma quotient_by_one_tenth: "round_double (1 / round_double (1 / 10)) = 10"
  unfolding double_one_tenth
  using round_double_eval [of 3 "1 / (3602879701896397 / 2 ^ 55)" 5629499534213120]
  by (simp add: powr_minus powr_numeral field_simps)

text \<open>
  C1, as the specification has it: the count is \<open>ceil(outerDt/dtInner)\<close> when
  \<open>outerDt > dtInner\<close>. The code computes \<open>(int)(outerDt/dtInner) + 1\<close>, which is one more
  than the ceiling whenever the quotient is a whole number: an outer step of 1 with a
  stable step of 1/2 is cut into 3 sub-steps, not 2.
\<close>

theorem C1_ceiling_counterexample:
  "SubStepAdvance_nsubsteps 1 (Fin (1/2)) 0 = Inr 3 \<and> \<lceil>(1::real) / (1/2)\<rceil> = 2"
  by (simp add: SubStepAdvance_nsubsteps_def fround_small c_int_def int_add_def
        INT_MIN_def INT_MAX_def ebind_def)

text \<open>
  C1, amended: for an outer step \<open>outerDt > 0\<close> and a stable step \<open>dtInner > 0\<close> the count
  is \<open>floor(q) + 1\<close> when \<open>outerDt > dtInner\<close>, where \<open>q\<close> is the quotient
  \<open>outerDt/dtInner\<close> rounded to a double, and 1 otherwise, provided \<open>q < 2^31 - 1\<close> (a
  larger quotient does not fit the \<open>int\<close> of the count); it is then raised to the
  configured minimum, it is at least 1, and the inner step is the double nearest to
  \<open>outerDt/nsub\<close>. The three examples of the specification hold, with 0.3 the double
  nearest to 3/10.
\<close>

theorem C1_substep_count:
  assumes "0 < outerDt" and "0 < dtInner"
    and "dtInner < outerDt \<longrightarrow> round_double (outerDt / dtInner) < 2 ^ 31 - 1"
  shows "\<exists>nsub. SubStepAdvance_nsubsteps outerDt (Fin dtInner) minimum = Inr nsub
           \<and> nsub = max minimum (if dtInner < outerDt
                                   then \<lfloor>round_double (outerDt / dtInner)\<rfloor> + 1 else 1)
           \<and> 1 \<le> nsub
           \<and> SubStepAdvance_dt outerDt nsub = fround (outerDt / real_of_int nsub)
           \<and> SubStepAdvance_nsubsteps 1 (Fin (round_double (3/10))) 0 = Inr 4
           \<and> SubStepAdvance_nsubsteps 1 (Fin 2) 0 = Inr 1
           \<and> SubStepAdvance_nsubsteps 1 (Fin 2) 5 = Inr 5"
proof -
  let ?n = "max minimum (if dtInner < outerDt
                          then \<lfloor>round_double (outerDt / dtInner)\<rfloor> + 1 else 1)"
  have run: "SubStepAdvance_nsubsteps outerDt (Fin dtInner) minimum = Inr ?n"
    using assms(2,3) by (rule nsubsteps_finite)
  have "0 \<le> outerDt / dtInner" using assms by simp
  then have "0 \<le> round_double (outerDt / dtInner)" by (rule round_double_nonneg)
  then have "0 \<le> \<lfloor>round_double (outerDt / dtInner)\<rfloor>" by simp
  then have pos: "1 \<le> ?n" by (simp add: le_max_iff_disj)
  then have "real_of_int ?n \<noteq> 0" by linarith
  then have dt: "SubStepAdvance_dt outerDt ?n = fround (outerDt / real_of_int ?n)"
    by (simp add: SubStepAdvance_dt_def)
  have d: "0 < round_double (3 / 10)" using double_three_tenths(1) by linarith
  have "\<lfloor>round_double (1 / round_double (3 / 10))\<rfloor> = 3"
    using quotient_by_three_tenths by (simp add: floor_eq_iff)
  moreover have "round_double (1 / round_double (3 / 10)) < 2 ^ 31 - 1"
    using quotient_by_three_tenths(2) by simp
  ultimately have e1: "SubStepAdvance_nsubsteps 1 (Fin (round_double (3/10))) 0 = Inr 4"
    using d double_three_tenths(2) by (simp add: nsubsteps_finite)
  have e2: "SubStepAdvance_nsubsteps 1 (Fin 2) 0 = Inr 1"
    by (simp add: nsubsteps_finite)
  have e3: "SubStepAdvance_nsubsteps 1 (Fin 2) 5 = Inr 5"
    by (simp add: nsubsteps_finite)
  show ?thesis using run pos dt e1 e2 e3 by blast
qed


theorem C1_substep_count_witness:
  "(0::real) < 1 \<and> 0 < round_double (1 / 10)
     \<and> round_double (1 / round_double (1 / 10)) < 2 ^ 31 - 1
     \<and> SubStepAdvance_nsubsteps 1 (Fin (round_double (1 / 10))) 0 = Inr 11
     \<and> SubStepAdvance_dt 1 11 = fround (1 / 11)"
proof -
  have h1: "(0::real) < 1" by simp
  have h2: "0 < round_double (1 / 10)" by (simp add: double_one_tenth)
  have h3: "round_double (1 / 10) < 1 \<longrightarrow> round_double (1 / round_double (1 / 10)) < 2 ^ 31 - 1"
    by (simp add: quotient_by_one_tenth)
  have h4: "round_double (1 / 10) < 1" by (simp add: double_one_tenth)
  from C1_substep_count [OF h1 h2 h3, of 0]
  show ?thesis using h2 h4 by (simp add: quotient_by_one_tenth)
qed

lemma nsubsteps_cast_overflow:
  "SubStepAdvance_nsubsteps 1 (Fin (1 / 2 ^ 34)) 0 = Inl UndefinedCast"
proof -
  have "round_double (2 ^ 34) = 2 ^ 34" using round_double_of_int [of "2 ^ 34"] by simp
  then show ?thesis
    by (simp add: SubStepAdvance_nsubsteps_def fround_small c_int_def INT_MIN_def INT_MAX_def
          ebind_def)
qed

subsection \<open>The steady-state check\<close>

lemma Vmath_Dot_self: "n \<le> length x \<Longrightarrow> Vmath_Dot n x x = Inr (self_dot (take n x))"
proof -
  have "foldl (\<lambda>sum (a, b). dadd sum (dmul (Fin a) (Fin b))) acc (zip cs cs)
          = foldl dadd acc (map (\<lambda>c. dmul (Fin c) (Fin c)) cs)" for cs acc
    by (induction cs arbitrary: acc) simp_all
  then show "n \<le> length x \<Longrightarrow> Vmath_Dot n x x = Inr (self_dot (take n x))"
    by (simp add: Vmath_Dot_def self_dot_def dsum_def)
qed

lemma CalcSteadyState_L2_spec:
  "list_all (\<lambda>f. n \<le> GetNcoeffs f) fs \<Longrightarrow>
     CalcSteadyState_L2 n fs acc
       = Inr (foldl dadd acc (map (\<lambda>f. self_dot (take n (coeffs f))) fs))"
proof (induction fs arbitrary: acc)
  case Nil
  then show ?case by simp
next
  case (Cons f fs)
  then have n: "n \<le> length (coeffs f)" and rest: "list_all (\<lambda>f. n \<le> GetNcoeffs f) fs"
    by (simp_all add: GetNcoeffs_def)
  show ?case
    using Cons.IH [OF rest] Vmath_Dot_self [OF n] by simp
qed

lemma CalcSteadyState_spec:
  assumes "coeffs_in_bounds fs"
  shows "CalcSteadyState fs tol p =
           Inr (fless (dabs (dsub (spec_L2 fs) p)) (threshold fs tol), spec_L2 fs)"
proof -
  from assms obtain f0 rest where fs: "fs = f0 # rest"
    by (cases fs) (auto simp: coeffs_in_bounds_def)
  from assms have "list_all (\<lambda>f. GetNcoeffs f0 \<le> GetNcoeffs f) fs"
    by (simp add: coeffs_in_bounds_def fs)
  from CalcSteadyState_L2_spec [OF this, of "Fin 0"]
  have "CalcSteadyState_L2 (GetNcoeffs f0) (f0 # rest) (Fin 0) = Inr (spec_L2 (f0 # rest))"
    by (simp add: fs spec_L2_def dsum_def del: CalcSteadyState_L2.simps)
  then show ?thesis
    by (simp add: CalcSteadyState_def fs threshold_def Let_def del: CalcSteadyState_L2.simps)
qed

lemma CalcSteadyState_calls_spec:
  "list_all coeffs_in_bounds calls \<Longrightarrow>
     CalcSteadyState_calls calls tol p =
       Inr (map2 (\<lambda>fs q. fless (dabs (dsub (spec_L2 fs) q)) (threshold fs tol))
              calls (p # map spec_L2 calls),
            last (p # map spec_L2 calls))"
proof (induction calls arbitrary: p)
  case Nil
  then show ?case by simp
next
  case (Cons fs calls)
  then have a: "coeffs_in_bounds fs" and b: "list_all coeffs_in_bounds calls" by simp_all
  show ?case
    using Cons.IH [OF b, of "spec_L2 fs"] CalcSteadyState_spec [OF a, of tol p]
    by simp
qed

lemma spec_L2_coeffs:
  assumes "map coeffs fs = map coeffs gs"
  shows "spec_L2 fs = spec_L2 gs" and "threshold fs tol = threshold gs tol"
proof -
  have len: "length fs = length gs" using assms by (metis length_map)
  have hd: "GetNcoeffs (hd fs) = GetNcoeffs (hd gs)" if "fs \<noteq> []"
  proof -
    have "gs \<noteq> []" using that len by auto
    then have "hd (map coeffs fs) = coeffs (hd fs)" "hd (map coeffs gs) = coeffs (hd gs)"
      using that by (simp_all add: hd_map)
    then show ?thesis using assms by (simp add: GetNcoeffs_def)
  qed
  show "spec_L2 fs = spec_L2 gs"
  proof (cases "fs = []")
    case True
    then show ?thesis using len by simp
  next
    case False
    let ?g = "\<lambda>cs. self_dot (take (GetNcoeffs (hd fs)) cs)"
    have "map (?g \<circ> coeffs) fs = map (?g \<circ> coeffs) gs"
      using assms by (metis map_map)
    then show ?thesis using hd [OF False] by (simp add: spec_L2_def comp_def)
  qed
  show "threshold fs tol = threshold gs tol"
  proof (cases "fs = []")
    case True
    then show ?thesis using len by simp
  next
    case False
    then show ?thesis using hd by (simp add: threshold_def)
  qed
qed

lemma difference_of_same:
  "nonneg_double x \<Longrightarrow> fless (dabs (dsub x x)) t = (is_finite x \<and> fless (Fin 0) t)"
  by (cases x) (simp_all add: nonneg_double_def dsub_def is_finite_def fround_def max_double_def)

lemma difference_from_zero:
  "nonneg_double x \<Longrightarrow> dabs (dsub x (Fin 0)) = x"
  by (cases x) (simp_all add: nonneg_double_def dsub_def)

lemma never_below_zero: "\<not> fless (dabs x) (Fin 0)"
  by (cases x) simp_all

lemma threshold_zero: "threshold fs 0 = Fin 0"
  by (simp add: threshold_def fround_def max_double_def)

text \<open>
  C3, as the specification has it. Two consecutive checks of the same coefficients are
  said to return true: with a tolerance of 0 the second one returns false, the test being
  a strict \<open><\<close>. The metric is said to be the sum over all fields of the dot product of
  the field's coefficient vector with itself: for a first field of two coefficients 3, 4
  and a second of three coefficients 1, 2, 9 it is 30, the sum over the first two
  coefficients of each field, and not 111.
\<close>

theorem C3_identical_checks_counterexample:
  "CalcSteadyState_process
     [[\<lparr>phys = [], coeffs = [3, 4], physState = False, waveSpace = False\<rparr>],
      [\<lparr>phys = [], coeffs = [3, 4], physState = False, waveSpace = False\<rparr>]] 0
     = Inr ([False, False], Fin 25)
   \<and> CalcSteadyState_process
     [[\<lparr>phys = [], coeffs = [3, 4], physState = False, waveSpace = False\<rparr>,
       \<lparr>phys = [], coeffs = [1, 2, 9], physState = False, waveSpace = False\<rparr>]] 1
     = Inr ([False], Fin 30)
   \<and> (3 * 3 + 4 * 4) + (1 * 1 + 2 * 2 + 9 * 9) = (111 :: real)"
  by (simp add: CalcSteadyState_process_def previousL2_initial_def CalcSteadyState_def
        GetNcoeffs_def Vmath_Dot_def dsub_def)

text \<open>
  C3, amended: any sequence of calls of the steady-state check from the start of a
  process, each on fields none of which has fewer coefficients than the first, threads
  \<open>previousL2\<close> through the calls, starting from the 0 of its declaration. Call \<open>k\<close>
  computes in doubles the sum over the fields of the dot product with itself of the
  field's first \<open>ncoeffs\<close> coefficients, returns whether the distance of this metric to
  the metric of the call before (to 0 for the first call) is below the double
  \<open>ncoeffs * tolerance\<close>, and stores its metric whatever it returns. Hence a call on the
  same coefficients as the call before returns true exactly when the metric is finite
  and the threshold is positive; the first call returns true exactly when its metric is
  below the threshold; and with a tolerance of 0 every call returns false.
\<close>

theorem C3_steady_state:
  assumes wf: "list_all coeffs_in_bounds calls"
  shows "\<exists>rs. CalcSteadyState_process calls tol
                 = Inr (rs, last (Fin 0 # map spec_L2 calls))
           \<and> length rs = length calls
           \<and> (\<forall>k<length calls.
                 rs ! k = fless (dabs (dsub (spec_L2 (calls ! k))
                                            ((Fin 0 # map spec_L2 calls) ! k)))
                                (threshold (calls ! k) tol))
           \<and> (\<forall>k. Suc k < length calls \<and> map coeffs (calls ! Suc k) = map coeffs (calls ! k)
                 \<longrightarrow> rs ! Suc k = (is_finite (spec_L2 (calls ! k))
                                     \<and> fless (Fin 0) (threshold (calls ! k) tol)))
           \<and> (calls \<noteq> []
                 \<longrightarrow> rs ! 0 = fless (spec_L2 (hd calls)) (threshold (hd calls) tol))
           \<and> (tol = 0 \<longrightarrow> (\<forall>k<length calls. \<not> rs ! k))"
proof -
  let ?prevs = "Fin 0 # map spec_L2 calls"
  let ?res = "\<lambda>fs q. fless (dabs (dsub (spec_L2 fs) q)) (threshold fs tol)"
  let ?rs = "map2 ?res calls ?prevs"
  have run: "CalcSteadyState_process calls tol = Inr (?rs, last ?prevs)"
    unfolding CalcSteadyState_process_def previousL2_initial_def
    using wf by (rule CalcSteadyState_calls_spec)
  have len: "length ?rs = length calls" by simp
  have nth: "?rs ! k = ?res (calls ! k) (?prevs ! k)" if "k < length calls" for k
    using that by simp
  have twice: "?rs ! Suc k = (is_finite (spec_L2 (calls ! k))
                               \<and> fless (Fin 0) (threshold (calls ! k) tol))"
    if "Suc k < length calls" and same: "map coeffs (calls ! Suc k) = map coeffs (calls ! k)"
    for k
  proof -
    have k: "k < length calls" using that(1) by simp
    have L2: "spec_L2 (calls ! Suc k) = spec_L2 (calls ! k)"
      and thr: "threshold (calls ! Suc k) tol = threshold (calls ! k) tol"
      using same by (rule spec_L2_coeffs)+
    have prev: "?prevs ! Suc k = spec_L2 (calls ! k)" using k by simp
    have "?rs ! Suc k = ?res (calls ! Suc k) (?prevs ! Suc k)"
      using that(1) by (rule nth)
    also have "\<dots> = fless (dabs (dsub (spec_L2 (calls ! k)) (spec_L2 (calls ! k))))
                          (threshold (calls ! k) tol)"
      by (simp only: prev L2 thr)
    also have "\<dots> = (is_finite (spec_L2 (calls ! k))
                       \<and> fless (Fin 0) (threshold (calls ! k) tol))"
      by (rule difference_of_same [OF spec_L2_nonneg])
    finally show ?thesis .
  qed
  have first: "?rs ! 0 = fless (spec_L2 (hd calls)) (threshold (hd calls) tol)"
    if "calls \<noteq> []"
  proof -
    have "0 < length calls" using that by simp
    then have "?rs ! 0 = ?res (calls ! 0) (?prevs ! 0)" by (rule nth)
    moreover have "calls ! 0 = hd calls" using that by (simp add: hd_conv_nth)
    ultimately show ?thesis
      by (simp add: difference_from_zero [OF spec_L2_nonneg])
  qed
  have zero: "\<not> ?rs ! k" if "tol = 0" and "k < length calls" for k
    using nth [OF that(2)] that(1) by (simp only: threshold_zero never_below_zero) simp
  show ?thesis
  proof (intro exI [of _ ?rs] conjI allI impI)
    show "CalcSteadyState_process calls tol = Inr (?rs, last ?prevs)" by (rule run)
    show "length ?rs = length calls" by (rule len)
    show "?rs ! k = ?res (calls ! k) (?prevs ! k)" if "k < length calls" for k
      using that by (rule nth)
    show "?rs ! Suc k = (is_finite (spec_L2 (calls ! k))
                          \<and> fless (Fin 0) (threshold (calls ! k) tol))"
      if "Suc k < length calls \<and> map coeffs (calls ! Suc k) = map coeffs (calls ! k)" for k
      using that twice by blast
    show "?rs ! 0 = fless (spec_L2 (hd calls)) (threshold (hd calls) tol)"
      if "calls \<noteq> []"
      using that by (rule first)
    show "\<not> ?rs ! k" if "tol = 0" and "k < length calls" for k
      using that by (rule zero)
  qed
qed


theorem C3_steady_state_witness:
  "list_all coeffs_in_bounds
     [[\<lparr>phys = [], coeffs = [3, 4], physState = False, waveSpace = False\<rparr>],
      [\<lparr>phys = [], coeffs = [3, 4], physState = False, waveSpace = False\<rparr>]]
   \<and> CalcSteadyState_process
     [[\<lparr>phys = [], coeffs = [3, 4], physState = False, waveSpace = False\<rparr>],
      [\<lparr>phys = [], coeffs = [3, 4], physState = False, waveSpace = False\<rparr>]] (1/128)
     = Inr ([False, True], Fin 25)"
proof -
  let ?f = "\<lparr>phys = [], coeffs = [3, 4], physState = False, waveSpace = False\<rparr>"
  have wf: "list_all coeffs_in_bounds [[?f], [?f]]"
    by (simp add: coeffs_in_bounds_def GetNcoeffs_def)
  have thr: "fround (1 / 64) = Fin (1 / 64)"
    using fround_dyadic [of 1 6] by simp
  from C3_steady_state [OF wf, of "1/128"]
  obtain rs where run: "CalcSteadyState_process [[?f], [?f]] (1/128)
                          = Inr (rs, last (Fin 0 # map spec_L2 [[?f], [?f]]))"
    and len: "length rs = length [[?f], [?f]]"
    and twice: "\<forall>k. Suc k < length [[?f], [?f]]
                    \<and> map coeffs ([[?f], [?f]] ! Suc k) = map coeffs ([[?f], [?f]] ! k)
                 \<longrightarrow> rs ! Suc k = (is_finite (spec_L2 ([[?f], [?f]] ! k))
                                     \<and> fless (Fin 0) (threshold ([[?f], [?f]] ! k) (1/128)))"
    by (elim exE conjE)
  have L2: "spec_L2 [?f] = Fin 25"
    by (simp add: spec_L2_def self_dot_def dsum_def GetNcoeffs_def)
  have t: "threshold [?f] (1/128) = Fin (1/64)"
    by (simp add: threshold_def GetNcoeffs_def thr)
  have "Suc 0 < length [[?f], [?f]]
          \<and> map coeffs ([[?f], [?f]] ! Suc 0) = map coeffs ([[?f], [?f]] ! 0)"
    by simp
  with twice have "rs ! Suc 0 = (is_finite (spec_L2 ([[?f], [?f]] ! 0))
                                   \<and> fless (Fin 0) (threshold ([[?f], [?f]] ! 0) (1/128)))"
    by blast
  then have r1: "rs ! Suc 0" by (simp add: L2 t is_finite_def)
  have eval: "CalcSteadyState_process [[?f], [?f]] (1/128) = Inr ([False, True], Fin 25)"
    by (simp add: CalcSteadyState_process_def previousL2_initial_def CalcSteadyState_def
          GetNcoeffs_def Vmath_Dot_def dsub_def thr)
  from run r1 eval wf show ?thesis by simp
qed

text \<open>
  The metric of a large state overflows: with one coefficient \<open>2^600\<close> it is \<open>+inf\<close>, the
  difference of two such metrics is a NaN, and two checks of the same coefficients both
  return false whatever the tolerance. The metric of a small state underflows: with one
  coefficient \<open>2^-600\<close> it is 0, and the first check returns true.
\<close>

lemma CalcSteadyState_overflow:
  "CalcSteadyState_process
     [[\<lparr>phys = [], coeffs = [2 ^ 600], physState = False, waveSpace = False\<rparr>],
      [\<lparr>phys = [], coeffs = [2 ^ 600], physState = False, waveSpace = False\<rparr>]] 1
     = Inr ([False, False], PInf)"
proof -
  have "round_double (2 ^ 1200) = 2 ^ 1200"
    using round_double_exact [of "2 ^ 1200" 1 1200] by (simp add: powr_numeral)
  then have "fround (2 ^ 600 * 2 ^ 600) = PInf"
    by (simp add: fround_def max_double_def power_add [symmetric])
  then show ?thesis
    by (simp add: CalcSteadyState_process_def previousL2_initial_def CalcSteadyState_def
          GetNcoeffs_def Vmath_Dot_def dsub_def)
qed

lemma CalcSteadyState_underflow:
  "CalcSteadyState_process
     [[\<lparr>phys = [], coeffs = [1 / 2 ^ 600], physState = False, waveSpace = False\<rparr>]]
     (1 / 2 ^ 1000)
     = Inr ([True], Fin 0)"
proof -
  have "\<bar>1 / 2 ^ 1200 :: real\<bar> < 2 powr (- 1075)"
    by (simp add: powr_minus powr_numeral field_simps)
  then have "round_double (1 / 2 ^ 1200) = 0" by (rule round_double_underflow)
  then have sq: "fround (1 / 2 ^ 600 * (1 / 2 ^ 600)) = Fin 0"
    by (simp add: fround_small power_add [symmetric])
  have thr: "fround (1 / 2 ^ 1000) = Fin (1 / 2 ^ 1000)"
    using fround_dyadic [of 1 1000] by simp
  show ?thesis
    using sq thr by (simp add: CalcSteadyState_process_def previousL2_initial_def CalcSteadyState_def
          GetNcoeffs_def Vmath_Dot_def dsub_def)
qed

subsection \<open>The stable-step estimator\<close>




text \<open>
  C6: the estimator is to return the minimum over the elements of
  \<open>safetyFactor / (stdVelocity[el] * 0.2 * (order[el] - 1)^2)\<close>, with \<open>stdVelocity[el]\<close> the
  largest magnitude of the velocity of element \<open>el\<close> in reference coordinates. The loops
  of \<open>GetStdVelocity\<close> read \<open>inarray[.][i]\<close> for \<open>i\<close> from 0 in every element, the values
  at the points of the first element, where the element's own points start at its
  offset in the array. On two one-point elements with the velocities (1, 0) and (2, 0),
  order 2 and safety factor 1 the code returns 5, the step of the first element; the
  second element moves twice as fast and limits the step to 5/2.
\<close>

theorem C6_offset_ignored:
  "GetSubstepTimeStep 2
       [\<lparr>ExpTotPoints = 1, Gtype = eRegular, Gmat = [[1], [0], [0], [1]]\<rparr>,
        \<lparr>ExpTotPoints = 1, Gtype = eRegular, Gmat = [[1], [0], [0], [1]]\<rparr>]
       [[1, 2], [0, 0]] [2, 2] 1 = Inr (Fin 5)
   \<and> spec_stable_step
       [\<lparr>ExpTotPoints = 1, Gtype = eRegular, Gmat = [[1], [0], [0], [1]]\<rparr>,
        \<lparr>ExpTotPoints = 1, Gtype = eRegular, Gmat = [[1], [0], [0], [1]]\<rparr>]
       [[1, 2], [0, 0]] [2, 2] 1 = Inr (Fin (5/2))"
  by (simp add: GetSubstepTimeStep_def GetStdVelocity_def elmt_in_bounds_def
        spec_stable_step_def GetStdVelocity_elmt_def pntVelocity2_def tstep_def fdiv_def
        Vmath_Vmin_def)

subsection \<open>Loops that may fail\<close>

lemma ebind_Inr_iff: "ebind m f = Inr y \<longleftrightarrow> (\<exists>x. m = Inr x \<and> f x = Inr y)"
  by (cases m) (simp_all add: ebind_def)

lemma ebind_Inr [simp]: "ebind (Inr x) f = f x"
  by (simp add: ebind_def)

lemma ebind_Inl [simp]: "ebind (Inl e) f = Inl e"
  by (simp add: ebind_def)

lemma efold_append: "efold f (xs @ ys) s = ebind (efold f xs s) (efold f ys)"
  by (induction xs arbitrary: s) (simp_all split: sum.split)

lemma efold_step_ok:
  "efold f xs s = Inr s' \<Longrightarrow> x \<in> set xs \<Longrightarrow> \<exists>s1 s2. f x s1 = Inr s2"
proof (induction xs arbitrary: s)
  case Nil
  then show ?case by simp
next
  case (Cons a xs)
  from Cons.prems(1) obtain s1 where a: "f a s = Inr s1" and rest: "efold f xs s1 = Inr s'"
    by (auto split: sum.splits)
  show ?case
  proof (cases "x = a")
    case True
    with a show ?thesis by blast
  next
    case False
    with Cons.prems(2) have "x \<in> set xs" by simp
    with Cons.IH [OF rest] show ?thesis by blast
  qed
qed

lemma efold_only_error:
  "(\<And>x s e. f x s = Inl e \<Longrightarrow> e = err) \<Longrightarrow> efold f xs s = Inl e \<Longrightarrow> e = err"
  by (induction xs arbitrary: s) (auto split: sum.splits)

subsection \<open>The Lagrange interpolants\<close>

lemma l_step_row:
  "i < length l \<Longrightarrow>
     efold (l_step dt toff i) js l =
       Inr (l[i := l ! i * prod_list (map (node_ratio dt toff i) (filter (\<lambda>j. j \<noteq> i) js))])"
proof (induction js arbitrary: l)
  case Nil
  then show ?case by simp
next
  case (Cons j js)
  show ?case
  proof (cases "i = j")
    case True
    with Cons show ?thesis by (simp add: l_step_def)
  next
    case False
    let ?l = "l[i := l ! i * node_ratio dt toff i j]"
    have len: "i < length ?l" using Cons.prems by simp
    have "efold (l_step dt toff i) (j # js) l = efold (l_step dt toff i) js ?l"
      using False Cons.prems by (simp add: l_step_def node_ratio_def)
    also have "\<dots> = Inr (?l[i := ?l ! i * prod_list (map (node_ratio dt toff i)
                          (filter (\<lambda>j. j \<noteq> i) js))])"
      using len by (rule Cons.IH)
    finally show ?thesis
      using False Cons.prems by (simp add: mult.assoc)
  qed
qed

lemma l_step_row_fails:
  "\<not> i < length l \<Longrightarrow> \<exists>j\<in>set js. j \<noteq> i \<Longrightarrow> efold (l_step dt toff i) js l = Inl OutOfBounds"
proof (induction js)
  case Nil
  then show ?case by simp
next
  case (Cons j js)
  then show ?case by (cases "i = j") (auto simp: l_step_def)
qed

lemma l_rows:
  "distinct is \<Longrightarrow> \<forall>i\<in>set is. i < length l \<Longrightarrow>
     \<exists>l'. efold (\<lambda>i. efold (l_step dt toff i) js) is l = Inr l'
          \<and> length l' = length l
          \<and> (\<forall>k<length l. l' ! k =
                (if k \<in> set is
                 then l ! k * prod_list (map (node_ratio dt toff k) (filter (\<lambda>j. j \<noteq> k) js))
                 else l ! k))"
proof (induction "is" arbitrary: l)
  case Nil
  then show ?case by simp
next
  case (Cons i "is")
  let ?P = "\<lambda>k. prod_list (map (node_ratio dt toff k) (filter (\<lambda>j. j \<noteq> k) js))"
  let ?l = "l[i := l ! i * ?P i]"
  have i: "i < length l" and notin: "i \<notin> set is" and d: "distinct is"
    using Cons.prems by simp_all
  have row: "efold (l_step dt toff i) js l = Inr ?l" using i by (rule l_step_row)
  have "\<forall>i\<in>set is. i < length ?l" using Cons.prems by simp
  from Cons.IH [OF d this] obtain l' where
    run: "efold (\<lambda>i. efold (l_step dt toff i) js) is ?l = Inr l'"
    and len: "length l' = length ?l"
    and val: "\<forall>k<length ?l. l' ! k = (if k \<in> set is then ?l ! k * ?P k else ?l ! k)"
    by blast
  have "l' ! k = (if k \<in> set (i # is) then l ! k * ?P k else l ! k)" if "k < length l" for k
  proof (cases "k = i")
    case True
    then show ?thesis using val that notin by simp
  next
    case False
    then show ?thesis using val that by simp
  qed
  then show ?case using row run len by simp
qed

lemma node_product:
  "prod_list (map (node_ratio dt toff i) (filter (\<lambda>j. j \<noteq> i) [0..<Suc ord]))
     = (\<Prod>j\<in>{0..ord} - {i}. node_ratio dt toff i j)"
proof -
  have "distinct (filter (\<lambda>j. j \<noteq> i) [0..<Suc ord])" by simp
  moreover have "set (filter (\<lambda>j. j \<noteq> i) [0..<Suc ord]) = {0..ord} - {i}" by auto
  ultimately show ?thesis
    by (metis prod.distinct_set_conv_list)
qed

lemma Lagrange_interpolants_ok:
  assumes "ord \<le> 3"
  shows "\<exists>l. Lagrange_interpolants ord dt toff = Inr l \<and> length l = 4
            \<and> (\<forall>i\<le>ord. l ! i = (\<Prod>j\<in>{0..ord} - {i}. node_ratio dt toff i j))"
proof -
  have "distinct [0..<Suc ord]" by simp
  moreover have "\<forall>i\<in>set [0..<Suc ord]. i < length (replicate 4 (1::real))"
    using assms by simp
  ultimately obtain l' where
    run: "efold (\<lambda>i. efold (l_step dt toff i) [0..<Suc ord]) [0..<Suc ord] (replicate 4 1) = Inr l'"
    and len: "length l' = length (replicate 4 (1::real))"
    and val: "\<forall>k<length (replicate 4 (1::real)). l' ! k =
                (if k \<in> set [0..<Suc ord]
                 then replicate 4 1 ! k * prod_list (map (node_ratio dt toff k)
                        (filter (\<lambda>j. j \<noteq> k) [0..<Suc ord]))
                 else replicate 4 1 ! k)"
    using l_rows [of "[0..<Suc ord]" "replicate 4 1" dt toff "[0..<Suc ord]"] by blast
  have "l' ! i = (\<Prod>j\<in>{0..ord} - {i}. node_ratio dt toff i j)" if "i \<le> ord" for i
  proof -
    have "i < 4" using that assms by simp
    then have "l' ! i = prod_list (map (node_ratio dt toff i)
                          (filter (\<lambda>j. j \<noteq> i) [0..<Suc ord]))"
      using val that by simp
    then show ?thesis by (simp only: node_product)
  qed
  then show ?thesis using run len by (simp add: Lagrange_interpolants_def)
qed

lemma efold_fails_at:
  "efold f pre s = Inr s1 \<Longrightarrow> f x s1 = Inl e \<Longrightarrow> efold f (pre @ x # post) s = Inl e"
  by (simp add: efold_append)

lemma Lagrange_interpolants_overflow:
  assumes "3 < ord"
  shows "Lagrange_interpolants ord dt toff = Inl OutOfBounds"
proof -
  define js where "js = [0..<Suc ord]"
  have split: "js = [0..<4] @ 4 # [5..<Suc ord]"
  proof -
    have "Suc ord = 4 + (ord - 3)" using assms by simp
    then have "[0..<Suc ord] = [0..<4 + (ord - 3)]" by simp
    also have "\<dots> = [0..<4] @ [4..<4 + (ord - 3)]" by (rule upt_add_eq_append) simp
    also have "[4..<4 + (ord - 3)] = 4 # [5..<Suc ord]"
      using assms by (simp add: upt_rec [of 4])
    finally show ?thesis by (simp only: js_def)
  qed
  have "distinct [0..<4::nat]" by simp
  moreover have "\<forall>i\<in>set [0..<4]. i < length (replicate 4 (1::real))" by simp
  ultimately obtain l' where
    run: "efold (\<lambda>i. efold (l_step dt toff i) js) [0..<4] (replicate 4 1) = Inr l'"
    and len: "length l' = length (replicate 4 (1::real))"
    using l_rows [of "[0..<4]" "replicate 4 1" dt toff js] by blast
  have "\<not> 4 < length l'" using len by simp
  moreover have "\<exists>j\<in>set js. j \<noteq> 4" unfolding js_def by (rule bexI [of _ 0]) auto
  ultimately have "efold (l_step dt toff 4) js l' = Inl OutOfBounds"
    by (rule l_step_row_fails)
  with run have "efold (\<lambda>i. efold (l_step dt toff i) js) ([0..<4] @ 4 # [5..<Suc ord])
                   (replicate 4 1) = Inl OutOfBounds"
    by (rule efold_fails_at)
  then have "efold (\<lambda>i. efold (l_step dt toff i) js) js (replicate 4 1) = Inl OutOfBounds"
    by (simp only: split [symmetric])
  then show ?thesis by (simp only: Lagrange_interpolants_def js_def)
qed

subsection \<open>The extrapolated velocity\<close>

subsection \<open>The weighted sum of the snapshots\<close>

lemma read_at_Inr_iff: "read_at xs i = Inr x \<longleftrightarrow> i < length xs \<and> x = xs ! i"
  by (auto simp: read_at_def)

lemma read_at_error: "read_at xs i = Inl e \<Longrightarrow> e = OutOfBounds"
  by (simp add: read_at_def split: if_splits)

lemma Daxpy_error: "Blas_Daxpy n a x y = Inl e \<Longrightarrow> e = OutOfBounds"
  by (simp add: Blas_Daxpy_def split: if_splits)

lemma Smul_error: "Vmath_Smul n a x y = Inl e \<Longrightarrow> e = OutOfBounds"
  by (simp add: Vmath_Smul_def split: if_splits)

lemma ebind_error:
  "ebind m f = Inl e \<Longrightarrow> (\<And>e. m = Inl e \<Longrightarrow> e = err) \<Longrightarrow> (\<And>x e. f x = Inl e \<Longrightarrow> e = err)
     \<Longrightarrow> e = err"
  by (cases m) (auto simp: ebind_def)

lemma Daxpy_loop:
  assumes "\<forall>j\<in>set js. j < length l \<and> j * nvel + i < length prev
                           \<and> npts \<le> length (prev ! (j * nvel + i))"
    and "npts \<le> length y"
  shows "efold (\<lambda>j y. ebind (read_at l j) (\<lambda>lj.
                       ebind (read_at prev (j * nvel + i)) (\<lambda>pj.
                       Blas_Daxpy npts lj pj y))) js y
         = Inr (map (\<lambda>k. y ! k + (\<Sum>j\<leftarrow>js. l ! j * prev ! (j * nvel + i) ! k)) [0..<npts]
                  @ drop npts y)"
  using assms
proof (induction js arbitrary: y)
  case Nil
  have "map ((!) y) [0..<npts] = take npts y"
    using Nil.prems(2) by (intro nth_equalityI) simp_all
  then show ?case by simp
next
  case (Cons j js)
  let ?x = "prev ! (j * nvel + i)"
  let ?y = "map (\<lambda>k. l ! j * ?x ! k + y ! k) [0..<npts] @ drop npts y"
  have j: "j < length l" "j * nvel + i < length prev" "npts \<le> length ?x"
    using Cons.prems(1) by simp_all
  have step: "ebind (read_at l j) (\<lambda>lj. ebind (read_at prev (j * nvel + i)) (\<lambda>pj.
                Blas_Daxpy npts lj pj y)) = Inr ?y"
    using j Cons.prems(2) by (simp add: read_at_def Blas_Daxpy_def)
  have leny: "npts \<le> length ?y" using Cons.prems(2) by simp
  have rest: "\<forall>j\<in>set js. j < length l \<and> j * nvel + i < length prev
                           \<and> npts \<le> length (prev ! (j * nvel + i))"
    using Cons.prems(1) by simp
  have nth: "?y ! k = l ! j * ?x ! k + y ! k" if "k < npts" for k
    using that by (simp add: nth_append)
  have dr: "drop npts ?y = drop npts y" by simp
  have "map (\<lambda>k. ?y ! k + (\<Sum>j\<leftarrow>js. l ! j * prev ! (j * nvel + i) ! k)) [0..<npts]
          = map (\<lambda>k. y ! k + (\<Sum>j\<leftarrow>j # js. l ! j * prev ! (j * nvel + i) ! k)) [0..<npts]"
    by (rule map_cong) (simp_all add: nth)
  then show ?case
    using Cons.IH [OF rest leny] step by (simp add: dr)
qed


text \<open>The extrapolated values of component \<open>i\<close> at the first \<open>npts\<close> points.\<close>

lemma ExtVel_component_ok:
  assumes l: "ord < length l"
    and prev: "\<forall>j\<le>ord. j * nvel + i < length prev \<and> npts \<le> length (prev ! (j * nvel + i))"
    and i: "i < length ExtVel" and y: "npts \<le> length (ExtVel ! i)"
  shows "ExtVel_component npts nvel ord l prev i ExtVel
         = Inr (ExtVel[i := map (\<lambda>k. \<Sum>j\<leftarrow>[0..<Suc ord]. l ! j * prev ! (j * nvel + i) ! k)
                               [0..<npts] @ drop npts (ExtVel ! i)])"
proof -
  let ?y0 = "map (\<lambda>k. l ! 0 * prev ! i ! k) [0..<npts] @ drop npts (ExtVel ! i)"
  from prev have p0: "i < length prev" "npts \<le> length (prev ! i)"
    by (metis le0 mult_0 add_0)+
  have smul: "Vmath_Smul npts (l ! 0) (prev ! i) (ExtVel ! i) = Inr ?y0"
    using p0 y by (simp add: Vmath_Smul_def)
  have leny0: "npts \<le> length ?y0" using y by simp
  have js: "\<forall>j\<in>set [1..<Suc ord]. j < length l \<and> j * nvel + i < length prev
                           \<and> npts \<le> length (prev ! (j * nvel + i))"
    using l prev by auto
  have nth: "?y0 ! k = l ! 0 * prev ! i ! k" if "k < npts" for k
    using that by (simp add: nth_append)
  have upt: "[0..<Suc ord] = 0 # [1..<Suc ord]" by (simp add: upt_rec [of 0])
  have "?y0 ! k + (\<Sum>j\<leftarrow>[1..<Suc ord]. l ! j * prev ! (j * nvel + i) ! k)
          = (\<Sum>j\<leftarrow>[0..<Suc ord]. l ! j * prev ! (j * nvel + i) ! k)" if "k < npts" for k
    unfolding upt using nth [OF that] by simp
  then have "map (\<lambda>k. ?y0 ! k + (\<Sum>j\<leftarrow>[1..<Suc ord]. l ! j * prev ! (j * nvel + i) ! k)) [0..<npts]
          = map (\<lambda>k. \<Sum>j\<leftarrow>[0..<Suc ord]. l ! j * prev ! (j * nvel + i) ! k) [0..<npts]"
    by (intro map_cong refl) simp
  moreover have "drop npts ?y0 = drop npts (ExtVel ! i)" by simp
  ultimately have loop:
    "efold (\<lambda>j y. ebind (read_at l j) (\<lambda>lj.
                       ebind (read_at prev (j * nvel + i)) (\<lambda>pj.
                       Blas_Daxpy npts lj pj y))) [1..<Suc ord] ?y0
       = Inr (map (\<lambda>k. \<Sum>j\<leftarrow>[0..<Suc ord]. l ! j * prev ! (j * nvel + i) ! k) [0..<npts]
                @ drop npts (ExtVel ! i))"
    using Daxpy_loop [OF js leny0] by simp
  have "0 < length l" using l by (cases l) simp_all
  then have r0: "read_at l 0 = Inr (l ! 0)" by (simp add: read_at_def)
  have rp: "read_at prev i = Inr (prev ! i)" using p0(1) by (simp add: read_at_def)
  have re: "read_at ExtVel i = Inr (ExtVel ! i)" using i by (simp add: read_at_def)
  show ?thesis
    unfolding ExtVel_component_def
    by (simp only: r0 rp re smul loop ebind_Inr)
qed

lemma ExtVel_component_error:
  "ExtVel_component npts nvel ord l prev i ExtVel = Inl e \<Longrightarrow> e = OutOfBounds"
  unfolding ExtVel_component_def
  by (elim ebind_error read_at_error Smul_error Daxpy_error efold_only_error [rotated]) simp_all

lemma ExtVel_component_needs:
  assumes "ExtVel_component npts nvel ord l prev i ExtVel = Inr E"
  shows "ord * nvel + i < length prev"
proof -
  from assms obtain l0 p0 y y0 where
    p0: "read_at prev i = Inr p0"
    and loop: "\<exists>y'. efold (\<lambda>j y. ebind (read_at l j) (\<lambda>lj.
                       ebind (read_at prev (j * nvel + i)) (\<lambda>pj.
                       Blas_Daxpy npts lj pj y))) [1..<Suc ord] y0 = Inr y'"
    unfolding ExtVel_component_def ebind_Inr_iff by blast
  show ?thesis
  proof (cases "ord = 0")
    case True
    with p0 show ?thesis by (simp add: read_at_Inr_iff)
  next
    case False
    then have "ord \<in> set [1..<Suc ord]" by simp
    with loop obtain y1 y2 where
      "ebind (read_at l ord) (\<lambda>lj. ebind (read_at prev (ord * nvel + i)) (\<lambda>pj.
          Blas_Daxpy npts lj pj y1)) = Inr y2"
      using efold_step_ok by fast
    then show ?thesis by (auto simp: ebind_Inr_iff read_at_Inr_iff)
  qed
qed


lemma ExtVel_loop_ok:
  assumes "ord < length l" and "distinct is"
    and "\<forall>i\<in>set is. i < length E \<and> npts \<le> length (E ! i)
            \<and> (\<forall>j\<le>ord. j * nvel + i < length prev \<and> npts \<le> length (prev ! (j * nvel + i)))"
  shows "\<exists>E'. efold (ExtVel_component npts nvel ord l prev) is E = Inr E'
            \<and> length E' = length E
            \<and> (\<forall>i<length E. E' ! i =
                  (if i \<in> set is
                   then map (\<lambda>k. \<Sum>j\<leftarrow>[0..<Suc ord]. l ! j * prev ! (j * nvel + i) ! k) [0..<npts]
                          @ drop npts (E ! i)
                   else E ! i))"
  using assms(2,3)
proof (induction "is" arbitrary: E)
  case Nil
  then show ?case by simp
next
  case (Cons i "is")
  let ?v = "\<lambda>i E. map (\<lambda>k. \<Sum>j\<leftarrow>[0..<Suc ord]. l ! j * prev ! (j * nvel + i) ! k) [0..<npts]
                    @ drop npts (E ! i)"
  let ?E = "E[i := ?v i E]"
  have i: "i < length E" "npts \<le> length (E ! i)"
    and pi: "\<forall>j\<le>ord. j * nvel + i < length prev \<and> npts \<le> length (prev ! (j * nvel + i))"
    and notin: "i \<notin> set is" and d: "distinct is"
    using Cons.prems by simp_all
  have step: "ExtVel_component npts nvel ord l prev i E = Inr ?E"
    using assms(1) pi i by (rule ExtVel_component_ok)
  have same: "?E ! k = E ! k" if "k \<in> set is" for k
    using that notin by (metis nth_list_update_neq)
  have "\<forall>i\<in>set is. i < length ?E \<and> npts \<le> length (?E ! i)
            \<and> (\<forall>j\<le>ord. j * nvel + i < length prev \<and> npts \<le> length (prev ! (j * nvel + i)))"
    using Cons.prems(2) same by simp
  from Cons.IH [OF d this] obtain E' where
    run: "efold (ExtVel_component npts nvel ord l prev) is ?E = Inr E'"
    and len: "length E' = length ?E"
    and val: "\<forall>k<length ?E. E' ! k = (if k \<in> set is then ?v k ?E else ?E ! k)"
    by blast
  have "E' ! k = (if k \<in> set (i # is) then ?v k E else E ! k)" if "k < length E" for k
  proof (cases "k = i")
    case True
    then show ?thesis using val that notin by simp
  next
    case False
    then show ?thesis using val that by simp
  qed
  then show ?case using step run len by simp
qed

lemma ExtVel_loop_needs:
  assumes "efold (ExtVel_component npts nvel ord l prev) [0..<nvel] E = Inr E'" and "0 < nvel"
  shows "(ord + 1) * nvel \<le> length prev"
proof -
  have "nvel - 1 \<in> set [0..<nvel]" using assms(2) by simp
  with assms(1) obtain E1 E2 where
    "ExtVel_component npts nvel ord l prev (nvel - 1) E1 = Inr E2"
    using efold_step_ok by fast
  then have "ord * nvel + (nvel - 1) < length prev" by (rule ExtVel_component_needs)
  then show ?thesis using assms(2) by simp
qed

lemma Lagrange_interpolants_error:
  "Lagrange_interpolants ord dt toff = Inl e \<Longrightarrow> e = OutOfBounds"
  unfolding Lagrange_interpolants_def
proof (erule efold_only_error [rotated], erule efold_only_error [rotated])
  fix i j l e assume "l_step dt toff i j l = Inl e"
  then show "e = OutOfBounds" by (simp add: l_step_def split: if_splits)
qed

lemma sum_list_upt_atMost: "(\<Sum>j\<leftarrow>[0..<Suc n]. f j) = (\<Sum>j\<le>n. f j)"
proof -
  have "(\<Sum>j\<leftarrow>[0..<Suc n]. f j) = sum f (set [0..<Suc n])"
    by (rule interv_sum_list_conv_sum_set_nat)
  also have "set [0..<Suc n] = {..n}" by auto
  finally show ?thesis .
qed

lemma Lagrange_monomial:
  assumes dt: "dt \<noteq> 0" and n: "n \<le> 3" and k: "k \<le> n"
  shows "(\<Sum>j\<le>n. prod_list (map (node_ratio dt \<tau> j) (filter (\<lambda>m. m \<noteq> j) [0..<Suc n]))
                  * (- (real j * dt)) ^ k) = \<tau> ^ k"
proof -
  from n consider "n = 0" | "n = Suc 0" | "n = Suc (Suc 0)" | "n = Suc (Suc (Suc 0))"
    by linarith
  then show ?thesis
  proof cases
    case 1
    then show ?thesis using k by simp
  next
    case 2
    with k have "k = 0 \<or> k = Suc 0" by linarith
    then show ?thesis
      using dt by (auto simp: 2 node_ratio_def field_simps)
  next
    case 3
    with k have "k = 0 \<or> k = Suc 0 \<or> k = Suc (Suc 0)" by linarith
    then show ?thesis
      using dt by (auto simp: 3 node_ratio_def field_simps power2_eq_square)
  next
    case 4
    with k have "k = 0 \<or> k = Suc 0 \<or> k = Suc (Suc 0) \<or> k = Suc (Suc (Suc 0))" by linarith
    then show ?thesis
      using dt by (auto simp: 4 node_ratio_def field_simps power2_eq_square power3_eq_cube)
  qed
qed


lemma Lagrange_polynomial:
  assumes "dt \<noteq> 0" and "n \<le> 3"
  shows "(\<Sum>j\<le>n. (\<Prod>i\<in>{0..n} - {j}. node_ratio dt \<tau> j i) * (\<Sum>m\<le>n. c m * (- (real j * dt)) ^ m))
           = (\<Sum>m\<le>n. c m * \<tau> ^ m)"
proof -
  let ?W = "\<lambda>j. \<Prod>i\<in>{0..n} - {j}. node_ratio dt \<tau> j i"
  have "(\<Sum>j\<le>n. ?W j * (\<Sum>m\<le>n. c m * (- (real j * dt)) ^ m))
          = (\<Sum>j\<le>n. \<Sum>m\<le>n. c m * (?W j * (- (real j * dt)) ^ m))"
    by (simp add: sum_distrib_left mult.left_commute)
  also have "\<dots> = (\<Sum>m\<le>n. \<Sum>j\<le>n. c m * (?W j * (- (real j * dt)) ^ m))"
    by (rule sum.swap)
  also have "\<dots> = (\<Sum>m\<le>n. c m * (\<Sum>j\<le>n. ?W j * (- (real j * dt)) ^ m))"
    by (simp add: sum_distrib_left)
  also have "\<dots> = (\<Sum>m\<le>n. c m * \<tau> ^ m)"
  proof (rule sum.cong [OF refl])
    fix m assume "m \<in> {..n}"
    then have "m \<le> n" by simp
    with assms have "(\<Sum>j\<le>n. prod_list (map (node_ratio dt \<tau> j)
                         (filter (\<lambda>m. m \<noteq> j) [0..<Suc n])) * (- (real j * dt)) ^ m) = \<tau> ^ m"
      by (rule Lagrange_monomial)
    then have "(\<Sum>j\<le>n. ?W j * (- (real j * dt)) ^ m) = \<tau> ^ m"
      by (simp only: node_product)
    then show "c m * (\<Sum>j\<le>n. ?W j * (- (real j * dt)) ^ m) = c m * \<tau> ^ m" by simp
  qed
  finally show ?thesis .
qed

lemma block_index:
  assumes "j \<le> ord" and "i < nvel"
  shows "j * nvel + i < (ord + 1) * (nvel::nat)"
proof -
  have "j * nvel + i < j * nvel + nvel" using assms(2) by simp
  also have "\<dots> = (j + 1) * nvel" by simp
  also have "\<dots> \<le> (ord + 1) * nvel" using assms(1) by (intro mult_le_mono1) simp
  finally show ?thesis .
qed

text \<open>The arrays are long enough for every read and write of the two loops.\<close>

lemma extrapolation_loops_ok:
  assumes ord: "ord \<le> 3"
    and prev: "(ord + 1) * nvel \<le> length prev"
    and E: "nvel \<le> length E"
    and prevlen: "\<forall>a\<in>set (take ((ord + 1) * nvel) prev). npts \<le> length a"
    and Elen: "\<forall>a\<in>set (take nvel E). npts \<le> length a"
  shows "\<exists>l E'. Lagrange_interpolants ord dt toff = Inr l
            \<and> (\<forall>i\<le>ord. l ! i = (\<Prod>j\<in>{0..ord} - {i}. node_ratio dt toff i j))
            \<and> efold (ExtVel_component npts nvel ord l prev) [0..<nvel] E = Inr E'
            \<and> length E' = length E
            \<and> (\<forall>i<nvel. \<forall>k<npts. E' ! i ! k = (\<Sum>j\<le>ord. l ! j * prev ! (j * nvel + i) ! k))"
proof -
  from Lagrange_interpolants_ok [OF ord] obtain l where
    l: "Lagrange_interpolants ord dt toff = Inr l" and len: "length l = 4"
    and w: "\<forall>i\<le>ord. l ! i = (\<Prod>j\<in>{0..ord} - {i}. node_ratio dt toff i j)"
    by blast
  have ordl: "ord < length l" using ord len by simp
  have rd: "j * nvel + i < length prev \<and> npts \<le> length (prev ! (j * nvel + i))"
    if "j \<le> ord" and "i < nvel" for i j
  proof -
    have lt: "j * nvel + i < (ord + 1) * nvel" using that by (rule block_index)
    then have "prev ! (j * nvel + i) \<in> set (take ((ord + 1) * nvel) prev)"
      using prev by (metis in_set_conv_nth length_take min.absorb2 nth_take)
    with prevlen lt prev show ?thesis by auto
  qed
  have wr: "i < length E \<and> npts \<le> length (E ! i)" if "i < nvel" for i
  proof -
    have "E ! i \<in> set (take nvel E)"
      using that E by (metis in_set_conv_nth length_take min.absorb2 nth_take)
    with Elen that E show ?thesis by auto
  qed
  have "\<forall>i\<in>set [0..<nvel]. i < length E \<and> npts \<le> length (E ! i)
            \<and> (\<forall>j\<le>ord. j * nvel + i < length prev \<and> npts \<le> length (prev ! (j * nvel + i)))"
    using rd wr by simp
  from ExtVel_loop_ok [OF ordl distinct_upt this] obtain E' where
    run: "efold (ExtVel_component npts nvel ord l prev) [0..<nvel] E = Inr E'"
    and lenE: "length E' = length E"
    and val: "\<forall>i<length E. E' ! i =
                  (if i \<in> set [0..<nvel]
                   then map (\<lambda>k. \<Sum>j\<leftarrow>[0..<Suc ord]. l ! j * prev ! (j * nvel + i) ! k) [0..<npts]
                          @ drop npts (E ! i)
                   else E ! i)"
    by blast
  have "E' ! i ! k = (\<Sum>j\<le>ord. l ! j * prev ! (j * nvel + i) ! k)"
    if "i < nvel" and "k < npts" for i k
  proof -
    have "i < length E" using that(1) E by simp
    with val that(1) have "E' ! i = map (\<lambda>k. \<Sum>j\<leftarrow>[0..<Suc ord]. l ! j * prev ! (j * nvel + i) ! k)
                                      [0..<npts] @ drop npts (E ! i)"
      by simp
    then have "E' ! i ! k = (\<Sum>j\<leftarrow>[0..<Suc ord]. l ! j * prev ! (j * nvel + i) ! k)"
      using that(2) by (simp add: nth_append)
    then show ?thesis by (simp only: sum_list_upt_atMost)
  qed
  with l w run lenE show ?thesis by blast
qed


lemma extrapolation_result:
  assumes "Lagrange_interpolants ord dt toff = Inr l"
    and "efold (ExtVel_component npts nvel ord l prev) [0..<nvel] E = Inr E'"
  shows "SubStepExtrapoloteField npts nvel ord dt prev toff E
           = (if dt = 0 \<and> 0 < ord then Inl NonFinite else Inr E')"
  using assms by (simp add: SubStepExtrapoloteField_def)

lemma extrapolation_in_bounds:
  assumes "SubStepExtrapoloteField npts nvel ord dt prev toff E \<noteq> Inl OutOfBounds"
  shows "\<exists>l E'. Lagrange_interpolants ord dt toff = Inr l
            \<and> efold (ExtVel_component npts nvel ord l prev) [0..<nvel] E = Inr E'"
proof (cases "Lagrange_interpolants ord dt toff")
  case (Inl e)
  then have "e = OutOfBounds" by (rule Lagrange_interpolants_error)
  with Inl assms show ?thesis by (simp add: SubStepExtrapoloteField_def)
next
  case (Inr l)
  show ?thesis
  proof (cases "efold (ExtVel_component npts nvel ord l prev) [0..<nvel] E")
    case (Inl e)
    then have "e = OutOfBounds"
      by (rule efold_only_error [rotated]) (rule ExtVel_component_error)
    with Inl Inr assms show ?thesis by (simp add: SubStepExtrapoloteField_def)
  next
    case Inr': (Inr E')
    with Inr show ?thesis by blast
  qed
qed

text \<open>
  C4: with an outer step \<open>outerDt > 0\<close>, at most 3 steps of the integrator (the array of
  weights has 4 entries) and a history long enough for the reads, the loops leave in
  \<open>l[i]\<close> the product over the other nodes \<open>j\<close> of
  \<open>(j * outerDt + \<tau>) / (j * outerDt - i * outerDt)\<close>, no divisor of which is 0, for
  the nodes 0 to \<open>ord\<close>; the extrapolated value of component \<open>i\<close> at point \<open>k\<close> is the
  sum of the snapshots of the blocks 0 to \<open>ord\<close> with these weights; and when the
  snapshots are the values at the times \<open>0, -outerDt, -2 * outerDt, ...\<close> of a
  polynomial in time of degree at most \<open>ord\<close>, the extrapolated value is the value of
  that polynomial at \<open>\<tau>\<close>. This holds for any offset \<open>\<tau>\<close>, in \<open>[0, outerDt)\<close> or not, in
  exact arithmetic.
\<close>

theorem C4_extrapolation_weights:
  assumes dt: "0 < outerDt" and ord: "ord \<le> 3"
    and prev: "(ord + 1) * nvel \<le> length prev" and E: "nvel \<le> length ExtVel"
    and prevlen: "\<forall>a\<in>set (take ((ord + 1) * nvel) prev). npts \<le> length a"
    and Elen: "\<forall>a\<in>set (take nvel ExtVel). npts \<le> length a"
  shows "\<exists>l E. Lagrange_interpolants ord outerDt \<tau> = Inr l
      \<and> (\<forall>i\<le>ord. l ! i = (\<Prod>j\<in>{0..ord} - {i}.
                                (real j * outerDt + \<tau>) / (real j * outerDt - real i * outerDt)))
      \<and> (\<forall>i\<le>ord. \<forall>j\<in>{0..ord} - {i}. real j * outerDt - real i * outerDt \<noteq> 0)
      \<and> SubStepExtrapoloteField npts nvel ord outerDt prev \<tau> ExtVel = Inr E
      \<and> (\<forall>i<nvel. \<forall>k<npts. E ! i ! k = (\<Sum>j\<le>ord. l ! j * prev ! (j * nvel + i) ! k))
      \<and> (\<forall>c. (\<forall>i<nvel. \<forall>k<npts. \<forall>j\<le>ord.
                  prev ! (j * nvel + i) ! k = (\<Sum>m\<le>ord. c i k m * (- (real j * outerDt)) ^ m))
             \<longrightarrow> (\<forall>i<nvel. \<forall>k<npts. E ! i ! k = (\<Sum>m\<le>ord. c i k m * \<tau> ^ m)))"
proof -
  from extrapolation_loops_ok [OF ord prev E prevlen Elen, of outerDt \<tau>]
  obtain l E' where
    l: "Lagrange_interpolants ord outerDt \<tau> = Inr l"
    and w: "\<forall>i\<le>ord. l ! i = (\<Prod>j\<in>{0..ord} - {i}. node_ratio outerDt \<tau> i j)"
    and loop: "efold (ExtVel_component npts nvel ord l prev) [0..<nvel] ExtVel = Inr E'"
    and val: "\<forall>i<nvel. \<forall>k<npts. E' ! i ! k = (\<Sum>j\<le>ord. l ! j * prev ! (j * nvel + i) ! k)"
    by blast
  have run: "SubStepExtrapoloteField npts nvel ord outerDt prev \<tau> ExtVel = Inr E'"
    using extrapolation_result [OF l loop] dt by simp
  have w': "\<forall>i\<le>ord. l ! i = (\<Prod>j\<in>{0..ord} - {i}.
                                (real j * outerDt + \<tau>) / (real j * outerDt - real i * outerDt))"
    using w by (simp add: node_ratio_def)
  have den: "\<forall>i\<le>ord. \<forall>j\<in>{0..ord} - {i}. real j * outerDt - real i * outerDt \<noteq> 0"
    using dt by auto
  have poly: "E' ! i ! k = (\<Sum>m\<le>ord. c i k m * \<tau> ^ m)"
    if h: "\<forall>i<nvel. \<forall>k<npts. \<forall>j\<le>ord.
             prev ! (j * nvel + i) ! k = (\<Sum>m\<le>ord. c i k m * (- (real j * outerDt)) ^ m)"
      and i: "i < nvel" and k: "k < npts" for c i k
  proof -
    have "E' ! i ! k = (\<Sum>j\<le>ord. l ! j * prev ! (j * nvel + i) ! k)"
      using val i k by simp
    also have "\<dots> = (\<Sum>j\<le>ord. (\<Prod>m\<in>{0..ord} - {j}. node_ratio outerDt \<tau> j m)
                             * (\<Sum>m\<le>ord. c i k m * (- (real j * outerDt)) ^ m))"
      using w h i k by (intro sum.cong refl) simp
    also have "\<dots> = (\<Sum>m\<le>ord. c i k m * \<tau> ^ m)"
      using dt ord by (intro Lagrange_polynomial) simp_all
    finally show ?thesis .
  qed
  show ?thesis
    using l w' den run val poly by (intro exI [of _ l] exI [of _ E'] conjI allI impI) blast+
qed


theorem C4_extrapolation_weights_witness:
  "(0::real) < 1 \<and> (1::nat) \<le> 3 \<and> (1 + 1) * 1 \<le> length [[3], [1::real]]
     \<and> (1::nat) \<le> length [[0::real]]
     \<and> (\<forall>a\<in>set (take ((1 + 1) * 1) [[3], [1::real]]). 1 \<le> length a) = True
     \<and> SubStepExtrapoloteField 1 1 1 1 [[3], [1]] (1/2) [[0]] = Inr [[4]]"
proof -
  have h1: "(0::real) < 1" and h2: "(1::nat) \<le> 3"
    and h3: "(1 + 1) * 1 \<le> length [[3], [1::real]]"
    and h4: "(1::nat) \<le> length [[0::real]]"
    and h5: "\<forall>a\<in>set (take ((1 + 1) * 1) [[3], [1::real]]). 1 \<le> length a"
    and h6: "\<forall>a\<in>set (take 1 [[0::real]]). 1 \<le> length a"
    by simp_all
  from C4_extrapolation_weights [OF h1 h2 h3 h4 h5 h6, of "1/2"]
  obtain E where run: "SubStepExtrapoloteField 1 1 1 1 [[3], [1]] (1/2) [[0]] = Inr E"
    and poly: "\<forall>c. (\<forall>i<1. \<forall>k<1. \<forall>j\<le>1.
                  [[3], [1]] ! (j * 1 + i) ! k = (\<Sum>m\<le>1. c i k m * (- (real j * 1)) ^ m))
             \<longrightarrow> (\<forall>i<1. \<forall>k<1. E ! i ! k = (\<Sum>m\<le>1. c i k m * (1/2) ^ m))"
    by (elim exE conjE)
  have eval: "SubStepExtrapoloteField 1 1 1 1 [[3], [1]] (1/2) [[0]] = Inr [[4]]"
    by (simp add: SubStepExtrapoloteField_def Lagrange_interpolants_def l_step_def
          ExtVel_component_def read_at_def Vmath_Smul_def Blas_Daxpy_def)
  from run eval h1 h2 h3 h4 h5 show ?thesis by simp
qed

text \<open>
  C9: the loops write \<open>l[i]\<close> for \<open>i\<close> up to \<open>m_intSteps\<close> into an array of 4 entries,
  which goes out of bounds exactly when \<open>m_intSteps > 3\<close>, and read the blocks 0 to
  \<open>m_intSteps\<close> of \<open>m_previousVelFields\<close>. A run that stays in bounds has
  \<open>m_intSteps \<le> 3\<close> and a history of at least \<open>(m_intSteps + 1) * nvel\<close> arrays; with
  arrays of at least \<open>npts\<close> values that is also enough. A history of \<open>m_intSteps * nvel\<close>
  arrays, one block per step of the integrator, is read out of bounds.
\<close>

theorem C9_extrapolation_bounds:
  "(Lagrange_interpolants ord dt toff = Inl OutOfBounds \<longleftrightarrow> 3 < ord)
   \<and> (SubStepExtrapoloteField npts nvel ord dt prev toff ExtVel \<noteq> Inl OutOfBounds
        \<longrightarrow> ord \<le> 3 \<and> (ord + 1) * nvel \<le> length prev)
   \<and> (ord \<le> 3 \<and> (ord + 1) * nvel \<le> length prev \<and> nvel \<le> length ExtVel
        \<and> (\<forall>a\<in>set (take ((ord + 1) * nvel) prev). npts \<le> length a)
        \<and> (\<forall>a\<in>set (take nvel ExtVel). npts \<le> length a)
        \<longrightarrow> SubStepExtrapoloteField npts nvel ord dt prev toff ExtVel \<noteq> Inl OutOfBounds)
   \<and> (0 < nvel \<and> length prev = ord * nvel
        \<longrightarrow> SubStepExtrapoloteField npts nvel ord dt prev toff ExtVel = Inl OutOfBounds)"
proof -
  have weights: "Lagrange_interpolants ord dt toff = Inl OutOfBounds \<longleftrightarrow> 3 < ord"
  proof
    assume "Lagrange_interpolants ord dt toff = Inl OutOfBounds"
    then show "3 < ord"
      using Lagrange_interpolants_ok [of ord dt toff] by (cases "ord \<le> 3") auto
  next
    assume "3 < ord"
    then show "Lagrange_interpolants ord dt toff = Inl OutOfBounds"
      by (rule Lagrange_interpolants_overflow)
  qed
  have needs: "ord \<le> 3 \<and> (ord + 1) * nvel \<le> length prev"
    if ok: "SubStepExtrapoloteField npts nvel ord dt prev toff ExtVel \<noteq> Inl OutOfBounds"
  proof -
    from ok obtain l E' where l: "Lagrange_interpolants ord dt toff = Inr l"
      and loop: "efold (ExtVel_component npts nvel ord l prev) [0..<nvel] ExtVel = Inr E'"
      using extrapolation_in_bounds by blast
    from l have "ord \<le> 3"
      using Lagrange_interpolants_overflow [of ord dt toff] by (cases "ord \<le> 3") auto
    moreover have "(ord + 1) * nvel \<le> length prev"
    proof (cases "nvel = 0")
      case True
      then show ?thesis by simp
    next
      case False
      then show ?thesis using ExtVel_loop_needs [OF loop] by simp
    qed
    ultimately show ?thesis by simp
  qed
  have enough: "SubStepExtrapoloteField npts nvel ord dt prev toff ExtVel \<noteq> Inl OutOfBounds"
    if h: "ord \<le> 3 \<and> (ord + 1) * nvel \<le> length prev \<and> nvel \<le> length ExtVel
        \<and> (\<forall>a\<in>set (take ((ord + 1) * nvel) prev). npts \<le> length a)
        \<and> (\<forall>a\<in>set (take nvel ExtVel). npts \<le> length a)"
  proof -
    from h obtain l E' where l: "Lagrange_interpolants ord dt toff = Inr l"
      and loop: "efold (ExtVel_component npts nvel ord l prev) [0..<nvel] ExtVel = Inr E'"
      using extrapolation_loops_ok [of ord nvel prev ExtVel npts dt toff] by blast
    show ?thesis by (simp add: extrapolation_result [OF l loop])
  qed
  have short: "SubStepExtrapoloteField npts nvel ord dt prev toff ExtVel = Inl OutOfBounds"
    if h: "0 < nvel \<and> length prev = ord * nvel"
  proof (rule ccontr)
    assume "SubStepExtrapoloteField npts nvel ord dt prev toff ExtVel \<noteq> Inl OutOfBounds"
    then have "(ord + 1) * nvel \<le> length prev" using needs by blast
    with h show False by simp
  qed
  from weights needs enough short show ?thesis by blast
qed

theorem C9_extrapolation_bounds_witness:
  "SubStepExtrapoloteField 1 1 1 1 [[3]] (1/2) [[0]] = Inl OutOfBounds
   \<and> Lagrange_interpolants 4 1 (1/2) = Inl OutOfBounds
   \<and> SubStepExtrapoloteField 1 1 1 1 [[3], [1]] (1/2) [[0]] \<noteq> Inl OutOfBounds"
proof -
  from C9_extrapolation_bounds [of 1 1 "1/2" 1 1 "[[3]]" "[[0]]"]
  have a: "SubStepExtrapoloteField 1 1 1 1 [[3]] (1/2) [[0]] = Inl OutOfBounds" by simp
  from C9_extrapolation_bounds [of 4 1 "1/2" 1 1 "[[3]]" "[[0]]"]
  have b: "Lagrange_interpolants 4 1 (1/2) = Inl OutOfBounds" by simp
  from C9_extrapolation_bounds [of 1 1 "1/2" 1 1 "[[3], [1]]" "[[0]]"]
  have c: "SubStepExtrapoloteField 1 1 1 1 [[3], [1]] (1/2) [[0]] \<noteq> Inl OutOfBounds" by simp
  from a b c show ?thesis by simp
qed

subsection \<open>The rotation of the history\<close>

lemma block_position:
  assumes "b * nvel \<le> k" and "k < Suc b * nvel" and "k mod nvel = n"
  shows "k = b * nvel + (n::nat)"
proof -
  have "0 < nvel" using assms(1,2) by (cases nvel) simp_all
  have "k div nvel = b"
    using assms(1,2) by (intro div_nat_eqI) (simp_all add: mult.commute)
  then show ?thesis using assms(3) div_mult_mod_eq [of k nvel] by simp
qed

lemma rev_upt_Suc: "1 \<le> b \<Longrightarrow> rev [1..<Suc b] = b # rev [1..<b]"
  by simp

lemma shift_up:
  assumes n: "n < nvel" and b: "1 \<le> b" and len: "b * nvel \<le> length p" and k: "k < length p"
  shows "length (fold (\<lambda>i p. p[i * nvel + n := p ! ((i - 1) * nvel + n)]) (rev [1..<b]) p)
           = length p
       \<and> fold (\<lambda>i p. p[i * nvel + n := p ! ((i - 1) * nvel + n)]) (rev [1..<b]) p ! k
           = (if k mod nvel = n \<and> nvel \<le> k \<and> k < b * nvel then p ! (k - nvel) else p ! k)"
  using b len k
proof (induction b arbitrary: p rule: nat_induct_at_least)
  case base
  then show ?case by auto
next
  case (Suc b)
  let ?f = "\<lambda>i p. p[i * nvel + n := p ! ((i - 1) * nvel + (n::nat))]"
  let ?p1 = "p[b * nvel + n := p ! ((b - 1) * nvel + n)]"
  have fold: "fold ?f (rev [1..<Suc b]) p = fold ?f (rev [1..<b]) ?p1"
    using Suc.hyps by (simp only: rev_upt_Suc fold_simps)
  have len1: "b * nvel \<le> length ?p1" using Suc.prems(1) by simp
  have k1: "k < length ?p1" using Suc.prems(2) by simp
  note IH = Suc.IH [OF len1 k1]
  have bn: "b * nvel + n < length p" using Suc.prems(1) n by simp
  have sub: "(b - 1) * nvel + n = b * nvel + n - nvel"
    using Suc.hyps by (cases b) simp_all
  show ?case
  proof (cases "k mod nvel = n \<and> nvel \<le> k \<and> k < b * nvel")
    case True
    then have "k - nvel \<noteq> b * nvel + n" by linarith
    then have "?p1 ! (k - nvel) = p ! (k - nvel)" by simp
    moreover have "k < Suc b * nvel" using True by simp
    ultimately show ?thesis using IH True by (simp only: fold) simp
  next
    case False
    show ?thesis
    proof (cases "k = b * nvel + n")
      case True
      have "nvel \<le> b * nvel" using Suc.hyps by (cases b) simp_all
      then have "nvel \<le> b * nvel + n" by (rule trans_le_add1)
      then have "nvel \<le> k" by (simp only: True)
      moreover have "k mod nvel = n" "k < Suc b * nvel"
        using True n by simp_all
      moreover have "?p1 ! k = p ! (k - nvel)" using True bn sub by simp
      ultimately show ?thesis using IH False by (simp only: fold) simp
    next
      case neq: False
      have "\<not> (k mod nvel = n \<and> nvel \<le> k \<and> k < Suc b * nvel)"
      proof
        assume h: "k mod nvel = n \<and> nvel \<le> k \<and> k < Suc b * nvel"
        with False have "b * nvel \<le> k" by simp
        with h have "k = b * nvel + n" by (intro block_position) simp_all
        with neq show False by simp
      qed
      moreover have "?p1 ! k = p ! k" using neq by simp
      ultimately show ?thesis using IH False by (simp only: fold) simp
    qed
  qed
qed


lemma rotated_index:
  assumes "1 \<le> nblocks" and "k < nblocks * nvel"
  shows "rotated_from nvel nblocks k < nblocks * nvel
       \<and> rotated_from nvel nblocks k mod nvel = k mod nvel"
proof (cases "k < nvel")
  case True
  have M: "nblocks * nvel = (nblocks - 1) * nvel + nvel"
    using assms(1) by (cases nblocks) simp_all
  show ?thesis using True by (simp add: rotated_from_def M)
next
  case False
  then have "(k - nvel) mod nvel = k mod nvel" by (simp add: le_mod_geq)
  then show ?thesis using False assms(2) by (simp add: rotated_from_def)
qed

lemma rotate_component_nth:
  assumes n: "n < nvel" and b: "1 \<le> nblocks" and len: "nblocks * nvel \<le> length p"
    and k: "k < length p"
  shows "length (rotate_component nvel nblocks n p) = length p
       \<and> rotate_component nvel nblocks n p ! k
           = (if k mod nvel = n \<and> k < nblocks * nvel then p ! rotated_from nvel nblocks k
              else p ! k)"
proof -
  let ?sh = "fold (\<lambda>i p. p[i * nvel + n := p ! ((i - 1) * nvel + n)]) (rev [1..<nblocks]) p"
  note sh = shift_up [OF n b len k]
  have rc: "rotate_component nvel nblocks n p = ?sh[n := p ! ((nblocks - 1) * nvel + n)]"
    by (simp add: rotate_component_def)
  have M: "nblocks * nvel = (nblocks - 1) * nvel + nvel"
    using b by (cases nblocks) simp_all
  show ?thesis
  proof (cases "k = n")
    case True
    then have "k mod nvel = n" "k < nblocks * nvel" "k < nvel" using n M by simp_all
    then show ?thesis
      using sh k True by (simp add: rc rotated_from_def add.commute)
  next
    case False
    have "nvel \<le> k" if "k mod nvel = n"
    proof (rule ccontr)
      assume "\<not> nvel \<le> k"
      then have "k mod nvel = k" by simp
      with that False show False by simp
    qed
    then show ?thesis
      using sh False by (auto simp: rc rotated_from_def)
  qed
qed

lemma rotate_components_nth:
  assumes m: "m \<le> nvel" and b: "1 \<le> nblocks" and len: "nblocks * nvel \<le> length p"
  shows "length (fold (rotate_component nvel nblocks) [0..<m] p) = length p
       \<and> (\<forall>k<length p. fold (rotate_component nvel nblocks) [0..<m] p ! k
           = (if k mod nvel < m \<and> k < nblocks * nvel then p ! rotated_from nvel nblocks k
              else p ! k))"
  using m
proof (induction m)
  case 0
  then show ?case by simp
next
  case (Suc m)
  let ?q = "fold (rotate_component nvel nblocks) [0..<m] p"
  have m: "m < nvel" and m': "m \<le> nvel" using Suc.prems by simp_all
  have lenq: "length ?q = length p" using Suc.IH [OF m'] by simp
  have q: "?q ! j = (if j mod nvel < m \<and> j < nblocks * nvel then p ! rotated_from nvel nblocks j
              else p ! j)" if "j < length p" for j
    using Suc.IH [OF m'] that by simp
  have fold: "fold (rotate_component nvel nblocks) [0..<Suc m] p
                = rotate_component nvel nblocks m ?q"
    by simp
  have lenq': "nblocks * nvel \<le> length ?q" using len lenq by simp
  have "rotate_component nvel nblocks m ?q ! k
           = (if k mod nvel < Suc m \<and> k < nblocks * nvel then p ! rotated_from nvel nblocks k
              else p ! k)" if k: "k < length p" for k
  proof -
    have kq: "k < length ?q" using k lenq by simp
    note rc = rotate_component_nth [OF m b lenq' kq]
    show ?thesis
    proof (cases "k mod nvel = m \<and> k < nblocks * nvel")
      case True
      then have r: "rotated_from nvel nblocks k < nblocks * nvel"
        "rotated_from nvel nblocks k mod nvel = m"
        using rotated_index [OF b, of k nvel] by simp_all
      then have "rotated_from nvel nblocks k < length p" using len by simp
      then have "?q ! rotated_from nvel nblocks k = p ! rotated_from nvel nblocks k"
        using q r(2) by simp
      then show ?thesis using rc True by simp
    next
      case False
      then have "(k mod nvel < Suc m \<and> k < nblocks * nvel) = (k mod nvel < m \<and> k < nblocks * nvel)"
        by auto
      then show ?thesis using rc False q [OF k] by auto
    qed
  qed
  moreover have "length (rotate_component nvel nblocks m ?q) = length p"
  proof -
    have "0 < nblocks * nvel" using m b by simp
    with lenq' have "0 < length ?q" by linarith
    from rotate_component_nth [OF m b lenq' this] lenq show ?thesis by simp
  qed
  ultimately show ?case by (simp only: fold) simp
qed

lemma rotation_nth:
  assumes nvel: "0 < nvel" and b: "1 \<le> nblocks" and len: "nblocks * nvel \<le> length p"
  shows "length (fold (rotate_component nvel nblocks) [0..<nvel] p) = length p"
    and "k < length p \<Longrightarrow> fold (rotate_component nvel nblocks) [0..<nvel] p ! k
           = (if k < nblocks * nvel then p ! rotated_from nvel nblocks k else p ! k)"
  using rotate_components_nth [OF le_refl b len] nvel by simp_all

lemma rotated_from_inj:
  assumes "1 \<le> nblocks" and "j < nblocks * nvel" and "k < nblocks * nvel"
    and "rotated_from nvel nblocks j = rotated_from nvel nblocks k"
  shows "j = k"
proof -
  have M: "nblocks * nvel = (nblocks - 1) * nvel + nvel"
    using assms(1) by (cases nblocks) simp_all
  show ?thesis
    using assms(2-4) unfolding rotated_from_def M
    by (cases "j < nvel"; cases "k < nvel") simp_all
qed

lemma rotation_distinct:
  assumes nvel: "0 < nvel" and b: "1 \<le> nblocks" and len: "nblocks * nvel \<le> length p"
    and d: "distinct p"
  shows "distinct (fold (rotate_component nvel nblocks) [0..<nvel] p)"
proof -
  let ?p' = "fold (rotate_component nvel nblocks) [0..<nvel] p"
  let ?s = "\<lambda>k. if k < nblocks * nvel then rotated_from nvel nblocks k else k"
  have len': "length ?p' = length p"
    using nvel b len by (rule rotation_nth(1))
  have nth: "?p' ! k = p ! ?s k" if "k < length p" for k
    using rotation_nth(2) [OF nvel b len that] by simp
  have bound: "?s k < length p" if "k < length p" for k
    using that rotated_index [OF b, of k nvel] len by auto
  have inj: "j = k" if "?s j = ?s k" and "j < length p" and "k < length p" for j k
  proof (cases "j < nblocks * nvel"; cases "k < nblocks * nvel")
    assume "j < nblocks * nvel" "k < nblocks * nvel"
    with that(1) show ?thesis using rotated_from_inj [OF b] by simp
  next
    assume a: "j < nblocks * nvel" "\<not> k < nblocks * nvel"
    then have "rotated_from nvel nblocks j < nblocks * nvel"
      using rotated_index [OF b] by blast
    with a that(1) show ?thesis by simp
  next
    assume a: "\<not> j < nblocks * nvel" "k < nblocks * nvel"
    then have "rotated_from nvel nblocks k < nblocks * nvel"
      using rotated_index [OF b] by blast
    with a that(1) show ?thesis by simp
  next
    assume "\<not> j < nblocks * nvel" "\<not> k < nblocks * nvel"
    with that(1) show ?thesis by simp
  qed
  show ?thesis
    unfolding distinct_conv_nth len'
  proof (intro allI impI)
    fix i j assume i: "i < length p" and j: "j < length p" and ne: "i \<noteq> j"
    have "?s i \<noteq> ?s j" using inj [OF _ i j] ne by blast
    then have "p ! ?s i \<noteq> p ! ?s j"
      using d bound [OF i] bound [OF j] by (simp add: nth_eq_iff_index_eq)
    then show "?p' ! i \<noteq> ?p' ! j" using nth i j by simp
  qed
qed

subsection \<open>The loops that copy into the history\<close>

lemma Vcopy_ok:
  "n \<le> length x \<Longrightarrow> n \<le> length y \<Longrightarrow> Vmath_Vcopy n x y = Inr (take n x @ drop n y)"
  by (simp add: Vmath_Vcopy_def)

lemma put_previous_field_ok:
  assumes "i < length vel" and "vel ! i < length F" and "i < length P"
    and "npts \<le> length (bwd (coeffs (F ! (vel ! i))))" and "npts \<le> length (B (P ! i))"
  shows "put_previous_field bwd npts vel i (F, P, B)
           = Inr (F[vel ! i := (F ! (vel ! i))\<lparr>phys := bwd (coeffs (F ! (vel ! i)))\<rparr>],
                  P,
                  B(P ! i := take npts (bwd (coeffs (F ! (vel ! i)))) @ drop npts (B (P ! i))))"
  using assms by (simp add: put_previous_field_def read_at_def Vcopy_ok)

lemma put_loop:
  assumes "distinct is"
    and "\<forall>i\<in>set is. \<forall>j\<in>set is. i \<noteq> j \<longrightarrow> P ! i \<noteq> P ! j"
    and "\<forall>i\<in>set is. i < length vel \<and> vel ! i < length F \<and> i < length P
            \<and> npts \<le> length (bwd (coeffs (F ! (vel ! i))))
            \<and> npts \<le> length (B (P ! i))"
  shows "\<exists>F' B'. efold (put_previous_field bwd npts vel) is (F, P, B) = Inr (F', P, B')
          \<and> length F' = length F
          \<and> (\<forall>v<length F. coeffs (F' ! v) = coeffs (F ! v))
          \<and> (\<forall>v<length F. v \<notin> (!) vel ` set is \<longrightarrow> F' ! v = F ! v)
          \<and> (\<forall>i\<in>set is. phys (F' ! (vel ! i)) = bwd (coeffs (F ! (vel ! i))))
          \<and> (\<forall>i\<in>set is. B' (P ! i)
                 = take npts (bwd (coeffs (F ! (vel ! i)))) @ drop npts (B (P ! i)))
          \<and> (\<forall>a. a \<notin> (!) P ` set is \<longrightarrow> B' a = B a)"
  using assms
proof (induction "is" arbitrary: F B)
  case Nil
  then show ?case by simp
next
  case (Cons i "is")
  let ?v = "vel ! i"
  let ?snap = "\<lambda>i. take npts (bwd (coeffs (F ! (vel ! i))))"
  let ?F1 = "F[?v := (F ! ?v)\<lparr>phys := bwd (coeffs (F ! ?v))\<rparr>]"
  let ?B1 = "B(P ! i := ?snap i @ drop npts (B (P ! i)))"
  have i: "i < length vel" "?v < length F" "i < length P"
    "npts \<le> length (bwd (coeffs (F ! ?v)))" "npts \<le> length (B (P ! i))"
    using Cons.prems(3) by simp_all
  have step: "put_previous_field bwd npts vel i (F, P, B) = Inr (?F1, P, ?B1)"
    using i by (rule put_previous_field_ok)
  have d: "distinct is" and notin: "i \<notin> set is" using Cons.prems(1) by simp_all
  have ne: "P ! j \<noteq> P ! i" if "j \<in> set is" for j
    using Cons.prems(2) that notin by (metis list.set_intros(1,2))
  have c1: "coeffs (?F1 ! v) = coeffs (F ! v)" if "v < length F" for v
    using that by (cases "v = ?v") simp_all
  have inj: "\<forall>i\<in>set is. \<forall>j\<in>set is. i \<noteq> j \<longrightarrow> P ! i \<noteq> P ! j"
    using Cons.prems(2) by simp
  have pre: "\<forall>j\<in>set is. j < length vel \<and> vel ! j < length ?F1 \<and> j < length P
            \<and> npts \<le> length (bwd (coeffs (?F1 ! (vel ! j))))
            \<and> npts \<le> length (?B1 (P ! j))"
    using Cons.prems(3) c1 ne by simp
  from Cons.IH [OF d inj pre] obtain F' B' where
    run: "efold (put_previous_field bwd npts vel) is (?F1, P, ?B1) = Inr (F', P, B')"
    and len: "length F' = length ?F1"
    and co: "\<forall>v<length ?F1. coeffs (F' ! v) = coeffs (?F1 ! v)"
    and un: "\<forall>v<length ?F1. v \<notin> (!) vel ` set is \<longrightarrow> F' ! v = ?F1 ! v"
    and ph: "\<forall>j\<in>set is. phys (F' ! (vel ! j)) = bwd (coeffs (?F1 ! (vel ! j)))"
    and bu: "\<forall>j\<in>set is. B' (P ! j)
                 = take npts (bwd (coeffs (?F1 ! (vel ! j)))) @ drop npts (?B1 (P ! j))"
    and ot: "\<forall>a. a \<notin> (!) P ` set is \<longrightarrow> B' a = ?B1 a"
    by blast
  have vj: "vel ! j < length F" if "j \<in> set is" for j
    using Cons.prems(3) that by simp
  have 1: "efold (put_previous_field bwd npts vel) (i # is) (F, P, B) = Inr (F', P, B')"
    using step run by simp
  have 2: "length F' = length F" using len by simp
  have 3: "\<forall>v<length F. coeffs (F' ! v) = coeffs (F ! v)" using co c1 by simp
  have 4: "\<forall>v<length F. v \<notin> (!) vel ` set (i # is) \<longrightarrow> F' ! v = F ! v"
    using un by auto
  have 5: "\<forall>j\<in>set (i # is). phys (F' ! (vel ! j)) = bwd (coeffs (F ! (vel ! j)))"
  proof
    fix j assume j: "j \<in> set (i # is)"
    show "phys (F' ! (vel ! j)) = bwd (coeffs (F ! (vel ! j)))"
    proof (cases "vel ! j \<in> (!) vel ` set is")
      case True
      then obtain j' where j': "j' \<in> set is" "vel ! j = vel ! j'" by blast
      then show ?thesis using ph c1 [OF vj [OF j'(1)]] by simp
    next
      case False
      then have ji: "j = i" using j by auto
      with False un i(2) have "F' ! ?v = ?F1 ! ?v" by simp
      then show ?thesis using ji i(2) by simp
    qed
  qed
  have 6: "\<forall>j\<in>set (i # is). B' (P ! j)
                 = take npts (bwd (coeffs (F ! (vel ! j)))) @ drop npts (B (P ! j))"
  proof
    fix j assume j: "j \<in> set (i # is)"
    show "B' (P ! j) = ?snap j @ drop npts (B (P ! j))"
    proof (cases "j = i")
      case True
      have "P ! i \<notin> (!) P ` set is" using ne by (metis imageE)
      with ot have "B' (P ! i) = ?B1 (P ! i)" by blast
      then show ?thesis using True by simp
    next
      case False
      with j have j': "j \<in> set is" by simp
      then show ?thesis using bu ne [OF j'] c1 [OF vj [OF j']] by simp
    qed
  qed
  have 7: "\<forall>a. a \<notin> (!) P ` set (i # is) \<longrightarrow> B' a = B a"
    using ot by auto
  from 1 2 3 4 5 6 7 show ?case by blast
qed


lemma initialise_level_ok:
  assumes "n < length vel" and "vel ! n < length F"
    and "npts \<le> length (phys (F ! (vel ! n)))"
    and "i * nvel + n < length P" and "npts \<le> length (B (P ! (i * nvel + n)))"
  shows "initialise_level npts nvel vel n i (F, P, B)
           = Inr (F, P, B(P ! (i * nvel + n) :=
                    take npts (phys (F ! (vel ! n))) @ drop npts (B (P ! (i * nvel + n)))))"
  using assms by (simp add: initialise_level_def read_at_def Vcopy_ok)

lemma initialise_levels:
  assumes n: "n < length vel" "vel ! n < length F"
    "npts \<le> length (phys (F ! (vel ! n)))"
    and "\<forall>i\<in>set is. i * nvel + n < length P \<and> npts \<le> length (B (P ! (i * nvel + n)))"
  shows "\<exists>B'. efold (initialise_level npts nvel vel n) is (F, P, B) = Inr (F, P, B')
          \<and> (\<forall>i\<in>set is. B' (P ! (i * nvel + n))
                = take npts (phys (F ! (vel ! n))) @ drop npts (B (P ! (i * nvel + n))))
          \<and> (\<forall>a. a \<notin> (\<lambda>i. P ! (i * nvel + n)) ` set is \<longrightarrow> B' a = B a)"
  using assms(4)
proof (induction "is" arbitrary: B)
  case Nil
  then show ?case by simp
next
  case (Cons i "is")
  let ?w = "take npts (phys (F ! (vel ! n)))"
  let ?a = "\<lambda>i. P ! (i * nvel + n)"
  let ?B1 = "B(?a i := ?w @ drop npts (B (?a i)))"
  have i: "i * nvel + n < length P" "npts \<le> length (B (?a i))"
    using Cons.prems by simp_all
  have step: "initialise_level npts nvel vel n i (F, P, B) = Inr (F, P, ?B1)"
    using n i by (rule initialise_level_ok)
  have lenw: "length ?w = npts" using n(3) by simp
  have dr: "drop npts (?B1 a) = drop npts (B a)" for a
    using lenw by (cases "a = ?a i") simp_all
  have ln: "length (?B1 a) = length (B a)" for a
    using lenw i(2) by (cases "a = ?a i") simp_all
  have pre: "\<forall>j\<in>set is. j * nvel + n < length P \<and> npts \<le> length (?B1 (?a j))"
    using Cons.prems ln by simp
  from Cons.IH [OF pre] obtain B' where
    run: "efold (initialise_level npts nvel vel n) is (F, P, ?B1) = Inr (F, P, B')"
    and bu: "\<forall>j\<in>set is. B' (?a j) = ?w @ drop npts (?B1 (?a j))"
    and ot: "\<forall>a. a \<notin> ?a ` set is \<longrightarrow> B' a = ?B1 a"
    by blast
  have 1: "efold (initialise_level npts nvel vel n) (i # is) (F, P, B) = Inr (F, P, B')"
    using step run by simp
  have 2: "\<forall>j\<in>set (i # is). B' (?a j) = ?w @ drop npts (B (?a j))"
  proof
    fix j assume j: "j \<in> set (i # is)"
    show "B' (?a j) = ?w @ drop npts (B (?a j))"
    proof (cases "?a j \<in> ?a ` set is")
      case True
      then obtain j' where "j' \<in> set is" "?a j = ?a j'" by blast
      then show ?thesis using bu dr by simp
    next
      case False
      then have "j = i" using j by auto
      with False ot show ?thesis by simp
    qed
  qed
  have 3: "\<forall>a. a \<notin> ?a ` set (i # is) \<longrightarrow> B' a = B a" using ot by auto
  from 1 2 3 show ?case by blast
qed

lemma initialise_all_levels:
  assumes "distinct ns"
    and "\<forall>n\<in>set ns. \<forall>n'\<in>set ns. \<forall>i\<in>set is. \<forall>i'\<in>set is.
            n \<noteq> n' \<longrightarrow> P ! (i * nvel + n) \<noteq> P ! (i' * nvel + n')"
    and "\<forall>n\<in>set ns. n < length vel \<and> vel ! n < length F
            \<and> npts \<le> length (phys (F ! (vel ! n)))
            \<and> (\<forall>i\<in>set is. i * nvel + n < length P \<and> npts \<le> length (B (P ! (i * nvel + n))))"
  shows "\<exists>B'. efold (\<lambda>n. efold (initialise_level npts nvel vel n) is) ns (F, P, B)
                = Inr (F, P, B')
          \<and> (\<forall>n\<in>set ns. \<forall>i\<in>set is. B' (P ! (i * nvel + n))
                = take npts (phys (F ! (vel ! n))) @ drop npts (B (P ! (i * nvel + n))))
          \<and> (\<forall>a. (\<forall>n\<in>set ns. \<forall>i\<in>set is. a \<noteq> P ! (i * nvel + n)) \<longrightarrow> B' a = B a)"
  using assms
proof (induction ns arbitrary: B)
  case Nil
  then show ?case by simp
next
  case (Cons n ns)
  let ?a = "\<lambda>n i. P ! (i * nvel + n)"
  let ?w = "\<lambda>n. take npts (phys (F ! (vel ! n)))"
  have n: "n < length vel" "vel ! n < length F"
    "npts \<le> length (phys (F ! (vel ! n)))"
    and rd: "\<forall>i\<in>set is. i * nvel + n < length P \<and> npts \<le> length (B (?a n i))"
    using Cons.prems(3) by simp_all
  from initialise_levels [OF n rd] obtain B1 where
    inner: "efold (initialise_level npts nvel vel n) is (F, P, B) = Inr (F, P, B1)"
    and bu1: "\<forall>i\<in>set is. B1 (?a n i) = ?w n @ drop npts (B (?a n i))"
    and ot1: "\<forall>a. a \<notin> ?a n ` set is \<longrightarrow> B1 a = B a"
    by blast
  have d: "distinct ns" and notin: "n \<notin> set ns" using Cons.prems(1) by simp_all
  have apart: "?a n' i' \<noteq> ?a n i" if "n' \<in> set ns" "i' \<in> set is" "i \<in> set is" for n' i' i
  proof -
    have "n' \<noteq> n" using that(1) notin by blast
    then show ?thesis using Cons.prems(2) that by (metis list.set_intros(1,2))
  qed
  have same: "B1 (?a n' i') = B (?a n' i')" if "n' \<in> set ns" "i' \<in> set is" for n' i'
  proof -
    have "?a n' i' \<notin> ?a n ` set is" using apart [OF that] by blast
    with ot1 show ?thesis by blast
  qed
  have inj: "\<forall>n\<in>set ns. \<forall>n'\<in>set ns. \<forall>i\<in>set is. \<forall>i'\<in>set is.
            n \<noteq> n' \<longrightarrow> P ! (i * nvel + n) \<noteq> P ! (i' * nvel + n')"
    using Cons.prems(2) by simp
  have pre: "\<forall>n\<in>set ns. n < length vel \<and> vel ! n < length F
            \<and> npts \<le> length (phys (F ! (vel ! n)))
            \<and> (\<forall>i\<in>set is. i * nvel + n < length P \<and> npts \<le> length (B1 (P ! (i * nvel + n))))"
    using Cons.prems(3) same by simp
  from Cons.IH [OF d inj pre] obtain B' where
    run: "efold (\<lambda>n. efold (initialise_level npts nvel vel n) is) ns (F, P, B1)
            = Inr (F, P, B')"
    and bu: "\<forall>n\<in>set ns. \<forall>i\<in>set is. B' (?a n i) = ?w n @ drop npts (B1 (?a n i))"
    and ot: "\<forall>a. (\<forall>n\<in>set ns. \<forall>i\<in>set is. a \<noteq> ?a n i) \<longrightarrow> B' a = B1 a"
    by blast
  have 1: "efold (\<lambda>n. efold (initialise_level npts nvel vel n) is) (n # ns) (F, P, B)
             = Inr (F, P, B')"
    using inner run by simp
  have 2: "\<forall>m\<in>set (n # ns). \<forall>i\<in>set is. B' (?a m i) = ?w m @ drop npts (B (?a m i))"
  proof (intro ballI)
    fix m i assume m: "m \<in> set (n # ns)" and i: "i \<in> set is"
    show "B' (?a m i) = ?w m @ drop npts (B (?a m i))"
    proof (cases "m = n")
      case True
      have "\<forall>n'\<in>set ns. \<forall>i'\<in>set is. ?a n i \<noteq> ?a n' i'"
        using apart i by metis
      with ot have "B' (?a n i) = B1 (?a n i)" by blast
      then show ?thesis using True bu1 i by simp
    next
      case False
      with m have m': "m \<in> set ns" by simp
      then show ?thesis using bu i same by simp
    qed
  qed
  have 3: "\<forall>a. (\<forall>m\<in>set (n # ns). \<forall>i\<in>set is. a \<noteq> ?a m i) \<longrightarrow> B' a = B a"
  proof (intro allI impI)
    fix a assume a: "\<forall>m\<in>set (n # ns). \<forall>i\<in>set is. a \<noteq> ?a m i"
    then have "B' a = B1 a" using ot by simp
    moreover have "a \<notin> ?a n ` set is" using a by auto
    ultimately show "B' a = B a" using ot1 by simp
  qed
  from 1 2 3 show ?case by blast
qed

subsection \<open>The history after a run of saves\<close>

lemma slot_index:
  assumes "i < nblocks" and "n < nvel"
  shows "i * nvel + n < nblocks * (nvel::nat)"
proof -
  have "i * nvel + n < i * nvel + nvel" using assms(2) by simp
  also have "\<dots> = Suc i * nvel" by simp
  also have "\<dots> \<le> nblocks * nvel" using assms(1) by (intro mult_le_mono1) simp
  finally show ?thesis .
qed

lemma slot_index_neq:
  assumes "n < nvel" and "n' < nvel" and "n \<noteq> n'"
  shows "i * nvel + n \<noteq> i' * nvel + (n'::nat)"
proof
  assume "i * nvel + n = i' * nvel + n'"
  then have "(i * nvel + n) mod nvel = (i' * nvel + n') mod nvel" by simp
  with assms show False by simp
qed

lemma SubStepSaveFields_effect:
  fixes vel :: "nat list" and P :: "nat list"
  defines "nvel \<equiv> length vel"
  defines "nblocks \<equiv> length P div nvel"
  assumes hist: "history_ok npts (P, B)" and flds: "fields_ok bwd vel npts F"
    and nvel: "0 < nvel" and blocks: "nvel \<le> length P"
  shows "\<exists>F' P' B'. SubStepSaveFields bwd vel nstep (F, P, B) = Inr (F', P', B')
          \<and> history_ok npts (P', B') \<and> length P' = length P
          \<and> (\<forall>n<nvel. slot nvel (P', B') 0 n = snapshot bwd vel npts F n)
          \<and> (\<forall>i n. 1 \<le> i \<and> i < nblocks \<and> n < nvel \<longrightarrow>
                slot nvel (P', B') i n
                  = (if nstep = 0 then snapshot bwd vel npts F n
                     else slot nvel (P, B) (i - 1) n))"
proof -
  let ?P' = "fold (rotate_component nvel nblocks) [0..<nvel] P"
  let ?snap = "snapshot bwd vel npts F"
  have dP: "distinct P" and lenB: "\<And>a. a \<in> set P \<Longrightarrow> length (B a) = npts"
    using hist by (simp_all add: history_ok_def list_all_iff)
  have F0: "F \<noteq> []" "GetTotPoints (hd F) = npts"
    and vel: "\<And>v. v \<in> set vel \<Longrightarrow> v < length F \<and> length (bwd (coeffs (F ! v))) = npts"
    using flds by (simp_all add: fields_ok_def list_all_iff)
  have nb: "1 \<le> nblocks" using nvel blocks by (simp add: nblocks_def div_greater_zero_iff Suc_le_eq)
  have M: "nblocks * nvel \<le> length P" by (simp add: nblocks_def)
  have nvM: "nvel \<le> nblocks * nvel" using nb by (cases nblocks) simp_all
  have lenP': "length ?P' = length P" using nvel nb M by (rule rotation_nth(1))
  have nthP': "?P' ! k = (if k < nblocks * nvel then P ! rotated_from nvel nblocks k else P ! k)"
    if "k < length P" for k
    using nvel nb M that by (rule rotation_nth(2))
  have dP': "distinct ?P'" using nvel nb M dP by (rule rotation_distinct)
  have inP: "?P' ! k \<in> set P" if "k < length P" for k
  proof (cases "k < nblocks * nvel")
    case True
    then have "rotated_from nvel nblocks k < length P"
      using rotated_index [OF nb True] M by simp
    then show ?thesis using nthP' [OF that] True by simp
  next
    case False
    then show ?thesis using nthP' [OF that] that by simp
  qed
  have read0: "read_at F 0 = Inr (hd F)"
    using F0(1) by (cases F) (simp_all add: read_at_def)
  have veln: "vel ! n < length F \<and> length (bwd (coeffs (F ! (vel ! n)))) = npts"
    if "n < nvel" for n
    using vel [of "vel ! n"] that by (simp add: nvel_def)
  have put_pre: "\<forall>i\<in>set [0..<nvel]. i < length vel \<and> vel ! i < length F
            \<and> i < length ?P'
            \<and> npts \<le> length (bwd (coeffs (F ! (vel ! i))))
            \<and> npts \<le> length (B (?P' ! i))"
  proof
    fix i assume "i \<in> set [0..<nvel]"
    then have i: "i < nvel" by simp
    then have iP: "i < length P" using blocks by simp
    show "i < length vel \<and> vel ! i < length F \<and> i < length ?P'
            \<and> npts \<le> length (bwd (coeffs (F ! (vel ! i))))
            \<and> npts \<le> length (B (?P' ! i))"
      using i iP veln [OF i] lenP' lenB [OF inP [OF iP]] by (simp add: nvel_def)
  qed
  have put_inj: "\<forall>i\<in>set [0..<nvel]. \<forall>j\<in>set [0..<nvel]. i \<noteq> j \<longrightarrow> ?P' ! i \<noteq> ?P' ! j"
    using dP' lenP' blocks by (simp add: nth_eq_iff_index_eq)
  from put_loop [OF distinct_upt put_inj put_pre] obtain F' B1 where
    put: "efold (put_previous_field bwd npts vel) [0..<nvel] (F, ?P', B) = Inr (F', ?P', B1)"
    and lenF': "length F' = length F"
    and ph: "\<forall>i\<in>set [0..<nvel]. phys (F' ! (vel ! i)) = bwd (coeffs (F ! (vel ! i)))"
    and bu: "\<forall>i\<in>set [0..<nvel]. B1 (?P' ! i)
                 = take npts (bwd (coeffs (F ! (vel ! i)))) @ drop npts (B (?P' ! i))"
    and ot: "\<forall>a. a \<notin> (!) ?P' ` set [0..<nvel] \<longrightarrow> B1 a = B a"
    by blast
  have B1_first: "B1 (?P' ! n) = ?snap n" if "n < nvel" for n
  proof -
    have "n < length P" using that blocks by simp
    then have "length (B (?P' ! n)) = npts" using lenB inP by simp
    then show ?thesis using bu that by (simp add: snapshot_def)
  qed
  have B1_later: "B1 (?P' ! k) = B (?P' ! k)" if "nvel \<le> k" and "k < length P" for k
  proof -
    have ne: "?P' ! k \<noteq> ?P' ! i" if "i < nvel" for i
      using dP' lenP' \<open>k < length P\<close> \<open>nvel \<le> k\<close> that blocks
      by (simp add: nth_eq_iff_index_eq)
    have "?P' ! k \<notin> (!) ?P' ` set [0..<nvel]"
    proof
      assume "?P' ! k \<in> (!) ?P' ` set [0..<nvel]"
      then obtain i where "i < nvel" and "?P' ! k = ?P' ! i" by auto
      with ne show False by blast
    qed
    with ot show ?thesis by blast
  qed
  have len_snap: "length (?snap n) = npts" if "n < nvel" for n
    using veln [OF that] by (simp add: snapshot_def)
  have lenB1: "length (B1 (?P' ! k)) = npts" if "k < length P" for k
  proof (cases "k < nvel")
    case True
    then show ?thesis using B1_first len_snap by simp
  next
    case False
    then show ?thesis using B1_later [of k] that lenB inP by simp
  qed
  have hist1: "history_ok npts (?P', B1)"
    using dP' lenB1 lenP' by (simp add: history_ok_def list_all_length)
  have slot_later: "slot nvel (?P', B1) i n = slot nvel (P, B) (i - 1) n"
    if "1 \<le> i" "i < nblocks" "n < nvel" for i n
  proof -
    let ?k = "i * nvel + n"
    have k: "?k < nblocks * nvel" using that(2,3) by (rule slot_index)
    then have kP: "?k < length P" using M by simp
    have ge: "nvel \<le> ?k" using that(1) by (cases i) simp_all
    have "rotated_from nvel nblocks ?k = (i - 1) * nvel + n"
      using ge that(1) by (cases i) (simp_all add: rotated_from_def)
    then have "?P' ! ?k = P ! ((i - 1) * nvel + n)" using nthP' [OF kP] k by simp
    then show ?thesis using B1_later [OF ge kP] by (simp add: slot_def)
  qed
  have slot_first: "slot nvel (?P', B1) 0 n = ?snap n" if "n < nvel" for n
    using B1_first [OF that] by (simp add: slot_def)
  have unfold: "SubStepSaveFields bwd vel nstep (F, P, B)
                  = (if nstep = 0
                     then efold (\<lambda>n. efold (initialise_level npts nvel vel n) [1..<nblocks])
                            [0..<nvel] (F', ?P', B1)
                     else Inr (F', ?P', B1))"
    using nvel nb put F0(2)
    by (simp add: SubStepSaveFields_def read0 Let_def nvel_def [symmetric] nblocks_def [symmetric])
  show ?thesis
  proof (cases "nstep = 0")
    case False
    then have "SubStepSaveFields bwd vel nstep (F, P, B) = Inr (F', ?P', B1)"
      using unfold by simp
    then show ?thesis
      using hist1 lenP' slot_first slot_later False by auto
  next
    case True
    have init_inj: "\<forall>n\<in>set [0..<nvel]. \<forall>n'\<in>set [0..<nvel].
            \<forall>i\<in>set [1..<nblocks]. \<forall>i'\<in>set [1..<nblocks].
            n \<noteq> n' \<longrightarrow> ?P' ! (i * nvel + n) \<noteq> ?P' ! (i' * nvel + n')"
    proof (intro ballI impI)
      fix n n' i i'
      assume a: "n \<in> set [0..<nvel]" "n' \<in> set [0..<nvel]"
        "i \<in> set [1..<nblocks]" "i' \<in> set [1..<nblocks]" "n \<noteq> n'"
      then have "i * nvel + n < length P" "i' * nvel + n' < length P"
        using slot_index [of i nblocks n nvel] slot_index [of i' nblocks n' nvel] M by simp_all
      moreover have "i * nvel + n \<noteq> i' * nvel + n'"
        using a by (intro slot_index_neq) simp_all
      ultimately show "?P' ! (i * nvel + n) \<noteq> ?P' ! (i' * nvel + n')"
        using dP' lenP' by (simp add: nth_eq_iff_index_eq)
    qed
    have init_pre: "\<forall>n\<in>set [0..<nvel]. n < length vel \<and> vel ! n < length F'
            \<and> npts \<le> length (phys (F' ! (vel ! n)))
            \<and> (\<forall>i\<in>set [1..<nblocks]. i * nvel + n < length ?P'
                  \<and> npts \<le> length (B1 (?P' ! (i * nvel + n))))"
    proof (intro ballI conjI)
      fix n assume "n \<in> set [0..<nvel]"
      then have n: "n < nvel" by simp
      show "n < length vel" using n by (simp add: nvel_def)
      show "vel ! n < length F'" using veln [OF n] lenF' by simp
      show "npts \<le> length (phys (F' ! (vel ! n)))" using ph veln [OF n] n by simp
      fix i assume "i \<in> set [1..<nblocks]"
      then have "i < nblocks" by simp
      then have k: "i * nvel + n < length P" using slot_index [OF _ n] M by fastforce
      then show "i * nvel + n < length ?P'" using lenP' by simp
      show "npts \<le> length (B1 (?P' ! (i * nvel + n)))" using lenB1 [OF k] by simp
    qed
    from initialise_all_levels [OF distinct_upt init_inj init_pre] obtain B2 where
      init: "efold (\<lambda>n. efold (initialise_level npts nvel vel n) [1..<nblocks])
               [0..<nvel] (F', ?P', B1) = Inr (F', ?P', B2)"
      and bu2: "\<forall>n\<in>set [0..<nvel]. \<forall>i\<in>set [1..<nblocks]. B2 (?P' ! (i * nvel + n))
                = take npts (phys (F' ! (vel ! n))) @ drop npts (B1 (?P' ! (i * nvel + n)))"
      and ot2: "\<forall>a. (\<forall>n\<in>set [0..<nvel]. \<forall>i\<in>set [1..<nblocks]. a \<noteq> ?P' ! (i * nvel + n))
                  \<longrightarrow> B2 a = B1 a"
      by blast
    have B2_later: "B2 (?P' ! (i * nvel + n)) = ?snap n" if "1 \<le> i" "i < nblocks" "n < nvel" for i n
    proof -
      have k: "i * nvel + n < length P" using slot_index [OF that(2,3)] M by simp
      have "phys (F' ! (vel ! n)) = bwd (coeffs (F ! (vel ! n)))"
        using ph that(3) by simp
      moreover have "length (B1 (?P' ! (i * nvel + n))) = npts" using lenB1 [OF k] .
      ultimately show ?thesis using bu2 that by (simp add: snapshot_def)
    qed
    have B2_first: "B2 (?P' ! n) = ?snap n" if "n < nvel" for n
    proof -
      have nP: "n < length P" using that blocks by simp
      have "?P' ! n \<noteq> ?P' ! (i * nvel + n')" if "n' < nvel" "1 \<le> i" "i < nblocks" for n' i
      proof -
        have "i * nvel + n' < length P" using slot_index [OF that(3,1)] M by simp
        moreover have "n \<noteq> i * nvel + n'" using \<open>n < nvel\<close> that(2) by (cases i) simp_all
        ultimately show ?thesis using dP' lenP' nP by (simp add: nth_eq_iff_index_eq)
      qed
      then have "B2 (?P' ! n) = B1 (?P' ! n)" using ot2 by simp
      then show ?thesis using B1_first [OF that] by simp
    qed
    have lenB2: "length (B2 (?P' ! k)) = npts" if "k < length P" for k
    proof (cases "\<forall>n\<in>set [0..<nvel]. \<forall>i\<in>set [1..<nblocks]. ?P' ! k \<noteq> ?P' ! (i * nvel + n)")
      case True
      then have "B2 (?P' ! k) = B1 (?P' ! k)" using ot2 by blast
      then show ?thesis using lenB1 [OF that] by simp
    next
      case False
      then obtain n i where "n < nvel" "1 \<le> i" "i < nblocks"
        and eq: "?P' ! k = ?P' ! (i * nvel + n)"
        by auto
      then have "B2 (?P' ! (i * nvel + n)) = ?snap n" "length (?snap n) = npts"
        using B2_later len_snap by simp_all
      then show ?thesis by (simp only: eq)
    qed
    have hist2: "history_ok npts (?P', B2)"
      using dP' lenB2 lenP' by (simp add: history_ok_def list_all_length)
    have "SubStepSaveFields bwd vel nstep (F, P, B) = Inr (F', ?P', B2)"
      using unfold True init by simp
    moreover have "\<forall>n<nvel. slot nvel (?P', B2) 0 n = ?snap n"
      using B2_first by (simp add: slot_def)
    moreover have "\<forall>i n. 1 \<le> i \<and> i < nblocks \<and> n < nvel \<longrightarrow> slot nvel (?P', B2) i n = ?snap n"
      using B2_later by (simp add: slot_def)
    ultimately show ?thesis using hist2 lenP' True by auto
  qed
qed


lemma saves_after_first:
  fixes vel :: "nat list"
  defines "nvel \<equiv> length vel"
  assumes "history_ok npts hist" and "\<forall>F\<in>set Fs. fields_ok bwd vel npts F"
    and "0 < nvel" and "nvel \<le> length (fst hist)" and "0 < s"
  shows "\<exists>hist'. SubStepSaveFields_calls bwd vel s Fs hist = Inr hist'
          \<and> history_ok npts hist' \<and> length (fst hist') = length (fst hist)
          \<and> (\<forall>i n. i < length (fst hist) div nvel \<and> n < nvel \<longrightarrow>
                slot nvel hist' i n
                  = (if i < length Fs
                     then snapshot bwd vel npts (Fs ! (length Fs - 1 - i)) n
                     else slot nvel hist (i - length Fs) n))"
  using assms(2,3,5,6)
proof (induction Fs arbitrary: s hist)
  case Nil
  then show ?case by simp
next
  case (Cons F rest)
  obtain P B where hist: "hist = (P, B)" by (cases hist)
  let ?nb = "length P div nvel"
  have F: "fields_ok bwd vel npts F" and rest: "\<forall>F\<in>set rest. fields_ok bwd vel npts F"
    using Cons.prems(2) by simp_all
  have s: "s \<noteq> 0" using Cons.prems(4) by simp
  have nv: "0 < length vel" using assms(4) by (simp add: nvel_def)
  have bl: "length vel \<le> length P" using Cons.prems(3) by (simp add: nvel_def hist)
  from SubStepSaveFields_effect [OF Cons.prems(1) [unfolded hist] F nv bl, of s]
  obtain F' P1 B1 where
    one: "SubStepSaveFields bwd vel s (F, P, B) = Inr (F', P1, B1)"
    and ok1: "history_ok npts (P1, B1)" and len1: "length P1 = length P"
    and first: "\<forall>n<nvel. slot nvel (P1, B1) 0 n = snapshot bwd vel npts F n"
    and later0: "\<forall>i n. 1 \<le> i \<and> i < ?nb \<and> n < nvel \<longrightarrow>
                  slot nvel (P1, B1) i n
                    = (if s = 0 then snapshot bwd vel npts F n
                       else slot nvel (P, B) (i - 1) n)"
    unfolding nvel_def by blast
  have later: "\<forall>i n. 1 \<le> i \<and> i < ?nb \<and> n < nvel \<longrightarrow>
                  slot nvel (P1, B1) i n = slot nvel (P, B) (i - 1) n"
    using later0 s by simp
  have len1': "nvel \<le> length (fst (P1, B1))" using Cons.prems(3) len1 hist by simp
  have s1: "0 < s + 1" using Cons.prems(4) by simp
  from Cons.IH [OF ok1 rest len1' s1] obtain hist' where
    run: "SubStepSaveFields_calls bwd vel (s + 1) rest (P1, B1) = Inr hist'"
    and ok': "history_ok npts hist'" and len': "length (fst hist') = length P1"
    and slots: "\<forall>i n. i < length P1 div nvel \<and> n < nvel \<longrightarrow>
                slot nvel hist' i n
                  = (if i < length rest
                     then snapshot bwd vel npts (rest ! (length rest - 1 - i)) n
                     else slot nvel (P1, B1) (i - length rest) n)"
    by auto
  have "slot nvel hist' i n
          = (if i < length (F # rest)
             then snapshot bwd vel npts ((F # rest) ! (length (F # rest) - 1 - i)) n
             else slot nvel hist (i - length (F # rest)) n)"
    if i: "i < ?nb" and n: "n < nvel" for i n
  proof -
    consider "i < length rest" | "i = length rest" | "length rest < i" by linarith
    then show ?thesis
    proof cases
      case 1
      then have "length rest - i = Suc (length rest - 1 - i)" by linarith
      then have "(F # rest) ! (length rest - i) = rest ! (length rest - 1 - i)"
        by (simp only: nth_Cons_Suc)
      then show ?thesis using slots i n 1 len1 by simp
    next
      case 2
      then show ?thesis using slots i n first len1 by simp
    next
      case 3
      then have "1 \<le> i - length rest" "i - length rest < ?nb" using i by simp_all
      then have "slot nvel (P1, B1) (i - length rest) n = slot nvel (P, B) (i - length rest - 1) n"
        using later n by blast
      then show ?thesis using slots i n 3 len1 hist by simp
    qed
  qed
  then show ?case
    using one run ok' len' len1 by (simp add: hist)
qed

lemma saves_from_cold_start:
  fixes vel :: "nat list"
  defines "nvel \<equiv> length vel"
  assumes "history_ok npts hist" and "\<forall>F\<in>set Fs. fields_ok bwd vel npts F"
    and "0 < nvel" and "nvel \<le> length (fst hist)" and "Fs \<noteq> []"
  shows "\<exists>hist'. SubStepSaveFields_calls bwd vel 0 Fs hist = Inr hist'
          \<and> history_ok npts hist' \<and> length (fst hist') = length (fst hist)
          \<and> (\<forall>i n. i < length (fst hist) div nvel \<and> n < nvel \<longrightarrow>
                slot nvel hist' i n
                  = snapshot bwd vel npts
                      (Fs ! (if i < length Fs then length Fs - 1 - i else 0)) n)"
proof -
  obtain P B where hist: "hist = (P, B)" by (cases hist)
  from assms(6) obtain F rest where Fs: "Fs = F # rest" by (cases Fs) auto
  let ?nb = "length P div nvel"
  have F: "fields_ok bwd vel npts F" and rest: "\<forall>F\<in>set rest. fields_ok bwd vel npts F"
    using assms(3) Fs by simp_all
  have nv: "0 < length vel" using assms(4) by (simp add: nvel_def)
  have bl: "length vel \<le> length P" using assms(5) by (simp add: nvel_def hist)
  from SubStepSaveFields_effect [OF assms(2) [unfolded hist] F nv bl, of 0]
  obtain F' P1 B1 where
    one: "SubStepSaveFields bwd vel 0 (F, P, B) = Inr (F', P1, B1)"
    and ok1: "history_ok npts (P1, B1)" and len1: "length P1 = length P"
    and first: "\<forall>n<nvel. slot nvel (P1, B1) 0 n = snapshot bwd vel npts F n"
    and later0: "\<forall>i n. 1 \<le> i \<and> i < ?nb \<and> n < nvel \<longrightarrow>
                  slot nvel (P1, B1) i n
                    = (if (0::int) = 0 then snapshot bwd vel npts F n
                       else slot nvel (P, B) (i - 1) n)"
    unfolding nvel_def by blast
  have later: "\<forall>i n. 1 \<le> i \<and> i < ?nb \<and> n < nvel \<longrightarrow>
                  slot nvel (P1, B1) i n = snapshot bwd vel npts F n"
    using later0 by simp
  have all1: "slot nvel (P1, B1) i n = snapshot bwd vel npts F n"
    if "i < ?nb" "n < nvel" for i n
    using first later that by (cases "i = 0") simp_all
  have len1': "nvel \<le> length (fst (P1, B1))" using assms(5) len1 hist by simp
  from saves_after_first [OF ok1 rest, of 1] assms(4) len1'
  obtain hist' where
    run: "SubStepSaveFields_calls bwd vel 1 rest (P1, B1) = Inr hist'"
    and ok': "history_ok npts hist'" and len': "length (fst hist') = length P1"
    and slots: "\<forall>i n. i < length P1 div nvel \<and> n < nvel \<longrightarrow>
                slot nvel hist' i n
                  = (if i < length rest
                     then snapshot bwd vel npts (rest ! (length rest - 1 - i)) n
                     else slot nvel (P1, B1) (i - length rest) n)"
    unfolding nvel_def by auto
  have "slot nvel hist' i n
          = snapshot bwd vel npts (Fs ! (if i < length Fs then length Fs - 1 - i else 0)) n"
    if i: "i < ?nb" and n: "n < nvel" for i n
  proof (cases "i < length rest")
    case True
    then have "length rest - i = Suc (length rest - 1 - i)" by linarith
    then have "(F # rest) ! (length rest - i) = rest ! (length rest - 1 - i)"
      by (simp only: nth_Cons_Suc)
    then show ?thesis using slots i n True len1 Fs by simp
  next
    case False
    then have "i - length rest < ?nb" using i by simp
    then have "slot nvel (P1, B1) (i - length rest) n = snapshot bwd vel npts F n"
      using all1 n by blast
    moreover have "Fs ! (if i < length Fs then length Fs - 1 - i else 0) = F"
      using False Fs by (cases "i = length rest") simp_all
    ultimately show ?thesis using slots i n False len1 by simp
  qed
  then show ?thesis
    using one run ok' len' len1 by (simp add: hist Fs)
qed


text \<open>
  C5, as the specification has it: after \<open>k \<ge> L\<close> saves slot \<open>i\<close> holds the snapshot from
  \<open>k - i\<close> saves ago. Four saves of one velocity component, with the coefficients 5, 6, 7
  and 8 and the identity for the transform, on a history of three slots: slot 1 ends
  with the snapshot of the third save, 7, taken one save before the last. The snapshot
  from \<open>k - i = 3\<close> saves before the last is that of the first save, 5.
\<close>

theorem C5_saves_ago_counterexample:
  "map_sum id (\<lambda>h. slot 1 h 1 0)
     (SubStepSaveFields_calls (\<lambda>c. c) [0] 0
        [[\<lparr>phys = [0], coeffs = [5], physState = False, waveSpace = False\<rparr>],
         [\<lparr>phys = [0], coeffs = [6], physState = False, waveSpace = False\<rparr>],
         [\<lparr>phys = [0], coeffs = [7], physState = False, waveSpace = False\<rparr>],
         [\<lparr>phys = [0], coeffs = [8], physState = False, waveSpace = False\<rparr>]]
        ([0, 1, 2], \<lambda>a. [0])) = Inr [7]
   \<and> snapshot (\<lambda>c. c) [0] 1
        ([[\<lparr>phys = [0], coeffs = [5], physState = False, waveSpace = False\<rparr>],
          [\<lparr>phys = [0], coeffs = [6], physState = False, waveSpace = False\<rparr>],
          [\<lparr>phys = [0], coeffs = [7], physState = False, waveSpace = False\<rparr>],
          [\<lparr>phys = [0], coeffs = [8], physState = False, waveSpace = False\<rparr>]] ! (4 - 1 - 3)) 0
       = [5]"
proof -
  let ?f = "\<lambda>x. \<lparr>phys = [0], coeffs = [x], physState = False, waveSpace = False\<rparr>"
  let ?Fs = "[[?f 5], [?f 6], [?f 7], [?f 8]]"
  let ?hist = "([0, 1, 2], \<lambda>a. [0::real]) :: nat list \<times> buffers"
  have ok: "history_ok 1 ?hist" by (simp add: history_ok_def)
  have flds: "\<forall>F\<in>set ?Fs. fields_ok (\<lambda>c. c) [0] 1 F"
    by (simp add: fields_ok_def GetTotPoints_def)
  have nvel: "0 < length [0::nat]" and blocks: "length [0::nat] \<le> length (fst ?hist)"
    and saves: "?Fs \<noteq> []"
    by simp_all
  from saves_from_cold_start [OF ok flds nvel blocks saves]
  obtain h where run: "SubStepSaveFields_calls (\<lambda>c. c) [0] 0 ?Fs ?hist = Inr h"
    and slots: "\<forall>i n. i < length (fst ?hist) div length [0::nat] \<and> n < length [0::nat] \<longrightarrow>
                   slot (length [0::nat]) h i n
                     = snapshot (\<lambda>c. c) [0] 1
                         (?Fs ! (if i < length ?Fs then length ?Fs - 1 - i else 0)) n"
    by blast
  from slots [rule_format, of 1 0] have s1: "slot 1 h 1 0 = [7]"
    by (simp add: snapshot_def)
  have old: "snapshot (\<lambda>c. c) [0] 1 (?Fs ! (4 - 1 - 3)) 0 = [5]"
    by (simp add: snapshot_def)
  from run s1 old show ?thesis by simp
qed

text \<open>
  C5, amended: one save rotates the history and copies the velocity of the moment, transformed to
  physical space, into slot 0: afterwards slot 0 holds the new snapshot and slot \<open>i > 0\<close>
  holds what slot \<open>i - 1\<close> held, or, when the step index is 0, the new snapshot as well.
  So in a run of \<open>k\<close> saves that starts with step index 0, on a history of \<open>L\<close> slots per
  component whose entries refer to \<open>L * nvel\<close> different buffers, slot \<open>i\<close> ends with
  the snapshot of save number \<open>k - i\<close> (the save \<open>i\<close> saves before the last one) when
  \<open>i < k\<close> and with the first snapshot otherwise: after the first save every slot
  holds that snapshot, and after \<open>k \<ge> L\<close> saves slot \<open>i\<close> holds the snapshot of
  save \<open>k - i\<close>, for every \<open>i < L\<close>. The list \<open>Fs\<close> holds the fields at the saves, so save
  number \<open>m\<close> is on \<open>Fs ! (m - 1)\<close>.
\<close>

theorem C5_history_buffer:
  fixes vel :: "nat list" and hist :: "nat list \<times> buffers"
  defines "nvel \<equiv> length vel"
  defines "L \<equiv> length (fst hist) div nvel"
  assumes ok: "history_ok npts hist" and flds: "\<forall>F\<in>set Fs. fields_ok bwd vel npts F"
    and nvel: "0 < nvel" and blocks: "nvel \<le> length (fst hist)" and saves: "Fs \<noteq> []"
  shows "(\<forall>F stepIndex. fields_ok bwd vel npts F \<longrightarrow>
            (\<exists>F' h. SubStepSaveFields bwd vel stepIndex (F, hist) = Inr (F', h)
               \<and> (\<forall>n<nvel. slot nvel h 0 n = snapshot bwd vel npts F n)
               \<and> (\<forall>i n. 1 \<le> i \<and> i < L \<and> n < nvel \<longrightarrow>
                     slot nvel h i n
                       = (if stepIndex = 0 then snapshot bwd vel npts F n
                          else slot nvel hist (i - 1) n))))
       \<and> (\<exists>hist'. SubStepSaveFields_calls bwd vel 0 Fs hist = Inr hist'
             \<and> (\<forall>i n. i < L \<and> n < nvel \<longrightarrow>
                   slot nvel hist' i n
                     = snapshot bwd vel npts
                         (Fs ! (if i < length Fs then length Fs - 1 - i else 0)) n)
             \<and> (length Fs = 1 \<longrightarrow>
                   (\<forall>i n. i < L \<and> n < nvel \<longrightarrow>
                      slot nvel hist' i n = snapshot bwd vel npts (Fs ! 0) n))
             \<and> (L \<le> length Fs \<longrightarrow>
                   (\<forall>i n. i < L \<and> n < nvel \<longrightarrow>
                      slot nvel hist' i n
                        = snapshot bwd vel npts (Fs ! (length Fs - 1 - i)) n)))"
proof -
  obtain P B where hist: "hist = (P, B)" by (cases hist)
  have nv: "0 < length vel" using nvel by (simp add: nvel_def)
  have bl: "length vel \<le> length P" using blocks by (simp add: nvel_def hist)
  have bl': "length vel \<le> length (fst hist)" using blocks by (simp add: nvel_def)
  have one: "\<exists>F' h. SubStepSaveFields bwd vel stepIndex (F, hist) = Inr (F', h)
               \<and> (\<forall>n<nvel. slot nvel h 0 n = snapshot bwd vel npts F n)
               \<and> (\<forall>i n. 1 \<le> i \<and> i < L \<and> n < nvel \<longrightarrow>
                     slot nvel h i n
                       = (if stepIndex = 0 then snapshot bwd vel npts F n
                          else slot nvel hist (i - 1) n))"
    if F: "fields_ok bwd vel npts F" for F stepIndex
  proof -
    from SubStepSaveFields_effect [OF ok [unfolded hist] F nv bl, of stepIndex]
    obtain F' P1 B1 where
      "SubStepSaveFields bwd vel stepIndex (F, P, B) = Inr (F', P1, B1)"
      "\<forall>n<nvel. slot nvel (P1, B1) 0 n = snapshot bwd vel npts F n"
      "\<forall>i n. 1 \<le> i \<and> i < length P div nvel \<and> n < nvel \<longrightarrow>
                  slot nvel (P1, B1) i n
                    = (if stepIndex = 0 then snapshot bwd vel npts F n
                       else slot nvel (P, B) (i - 1) n)"
      unfolding nvel_def by blast
    then show ?thesis unfolding L_def hist fst_conv by blast
  qed
  from saves_from_cold_start [OF ok flds nv bl' saves]
  obtain hist' where
    run: "SubStepSaveFields_calls bwd vel 0 Fs hist = Inr hist'"
    and slots: "\<forall>i n. i < L \<and> n < nvel \<longrightarrow>
                slot nvel hist' i n
                  = snapshot bwd vel npts
                      (Fs ! (if i < length Fs then length Fs - 1 - i else 0)) n"
    unfolding nvel_def L_def by blast
  have single: "slot nvel hist' i n = snapshot bwd vel npts (Fs ! 0) n"
    if "length Fs = 1" "i < L" "n < nvel" for i n
    using slots that by (cases "i = 0") simp_all
  have many: "slot nvel hist' i n = snapshot bwd vel npts (Fs ! (length Fs - 1 - i)) n"
    if "L \<le> length Fs" "i < L" "n < nvel" for i n
    using slots that by simp
  from one run slots single many show ?thesis by blast
qed

theorem C5_history_buffer_witness:
  "history_ok 1 ([0, 1], \<lambda>a. [0])
   \<and> list_all (fields_ok (\<lambda>c. c) [0] 1)
        [[\<lparr>phys = [0], coeffs = [5], physState = False, waveSpace = False\<rparr>],
         [\<lparr>phys = [0], coeffs = [6], physState = False, waveSpace = False\<rparr>],
         [\<lparr>phys = [0], coeffs = [7], physState = False, waveSpace = False\<rparr>]]
   \<and> (\<exists>h. SubStepSaveFields_calls (\<lambda>c. c) [0] 0
              [[\<lparr>phys = [0], coeffs = [5], physState = False, waveSpace = False\<rparr>],
               [\<lparr>phys = [0], coeffs = [6], physState = False, waveSpace = False\<rparr>],
               [\<lparr>phys = [0], coeffs = [7], physState = False, waveSpace = False\<rparr>]]
              ([0, 1], \<lambda>a. [0]) = Inr h
          \<and> slot 1 h 0 0 = [7] \<and> slot 1 h 1 0 = [6])"
proof -
  let ?f = "\<lambda>x. \<lparr>phys = [0], coeffs = [x], physState = False, waveSpace = False\<rparr>"
  let ?Fs = "[[?f 5], [?f 6], [?f 7]]"
  let ?hist = "([0, 1], \<lambda>a. [0::real]) :: nat list \<times> buffers"
  have ok: "history_ok 1 ?hist" by (simp add: history_ok_def)
  have flds: "\<forall>F\<in>set ?Fs. fields_ok (\<lambda>c. c) [0] 1 F"
    by (simp add: fields_ok_def GetTotPoints_def)
  have nvel: "0 < length [0::nat]" and blocks: "length [0::nat] \<le> length (fst ?hist)"
    and saves: "?Fs \<noteq> []"
    by simp_all
  from C5_history_buffer [OF ok flds nvel blocks saves]
  obtain h where run: "SubStepSaveFields_calls (\<lambda>c. c) [0] 0 ?Fs ?hist = Inr h"
    and slots: "\<forall>i n. i < length (fst ?hist) div length [0::nat] \<and> n < length [0::nat] \<longrightarrow>
                   slot (length [0::nat]) h i n
                     = snapshot (\<lambda>c. c) [0] 1
                         (?Fs ! (if i < length ?Fs then length ?Fs - 1 - i else 0)) n"
    by blast
  from slots [rule_format, of 0 0] have s0: "slot 1 h 0 0 = [7]"
    by (simp add: snapshot_def)
  from slots [rule_format, of 1 0] have s1: "slot 1 h 1 0 = [6]"
    by (simp add: snapshot_def)
  from ok flds run s0 s1 show ?thesis by (simp add: list_all_iff)
qed

subsection \<open>What a step changes of the counters and of the output\<close>

lemma int_add_Inr_iff: "int_add a b = Inr c \<longleftrightarrow> c = a + b \<and> INT_MIN \<le> a + b \<and> a + b \<le> INT_MAX"
  by (auto simp: int_add_def)

lemma SubStepAdvance_effect:
  assumes "SubStepAdvance cfg ext s = Inr s'"
  shows "ncalls s' = ncalls s + 1 \<and> nints s' = nints s @ [min (ncalls s) (m_intSteps cfg)]
         \<and> ncalls s < INT_MAX
         \<and> nchk s' = nchk s \<and> checkpoints s' = checkpoints s
         \<and> previousL2 s' = previousL2 s \<and> steady_checks s' = steady_checks s"
  using assms unfolding SubStepAdvance_def Let_def
  by (auto simp: ebind_Inr_iff int_add_Inr_iff INT_MAX_def simp: case_prod_beta)

lemma step_substep_effect:
  assumes "step_substep cfg ext n s = Inr s'"
  shows "(if m_subSteppingScheme cfg
          then ncalls s' = ncalls s + 1 \<and> nints s' = nints s @ [min (ncalls s) (m_intSteps cfg)]
               \<and> ncalls s < INT_MAX
          else ncalls s' = ncalls s \<and> nints s' = nints s)
         \<and> nchk s' = nchk s \<and> checkpoints s' = checkpoints s
         \<and> previousL2 s' = previousL2 s \<and> steady_checks s' = steady_checks s"
proof (cases "m_subSteppingScheme cfg")
  case True
  with assms obtain flds hist where
    "SubStepAdvance cfg ext (s\<lparr>m_fields := flds, m_previousVelFields := hist\<rparr>) = Inr s'"
    unfolding step_substep_def by (auto simp: ebind_Inr_iff)
  from SubStepAdvance_effect [OF this] True show ?thesis by simp
next
  case False
  with assms show ?thesis by (simp add: step_substep_def)
qed

lemma step_viscoelastic_frame:
  assumes "step_viscoelastic cfg ext n s = Inr s'"
  shows "ncalls s' = ncalls s \<and> nints s' = nints s
         \<and> nchk s' = nchk s \<and> checkpoints s' = checkpoints s
         \<and> previousL2 s' = previousL2 s \<and> steady_checks s' = steady_checks s"
  using assms unfolding step_viscoelastic_def
  by (auto simp: ebind_Inr_iff simp: case_prod_beta split: if_splits)

lemma step_velocity_frame:
  assumes "step_velocity cfg ext n s = Inr s'"
  shows "ncalls s' = ncalls s \<and> nints s' = nints s
         \<and> nchk s' = nchk s \<and> checkpoints s' = checkpoints s
         \<and> previousL2 s' = previousL2 s \<and> steady_checks s' = steady_checks s"
  using assms unfolding step_velocity_def Let_def
  by (auto simp: ebind_Inr_iff simp: case_prod_beta split: if_splits)

lemma step_energy_frame:
  assumes "step_energy cfg n s = Inr s'"
  shows "ncalls s' = ncalls s \<and> nints s' = nints s
         \<and> nchk s' = nchk s \<and> checkpoints s' = checkpoints s
         \<and> previousL2 s' = previousL2 s \<and> steady_checks s' = steady_checks s"
  using assms unfolding step_energy_def WriteModalEnergy_def
  by (auto simp: ebind_Inr_iff simp: case_prod_beta split: if_splits)

lemma step_filters_frame:
  assumes "step_filters cfg ext s = Inr s'"
  shows "ncalls s' = ncalls s \<and> nints s' = nints s
         \<and> nchk s' = nchk s \<and> checkpoints s' = checkpoints s
         \<and> previousL2 s' = previousL2 s \<and> steady_checks s' = steady_checks s"
  using assms unfolding step_filters_def
  by (auto simp: ebind_Inr_iff simp: case_prod_beta split: if_splits)

lemma step_checkpoint_effect:
  assumes "step_checkpoint cfg ext n s = Inr s'"
  shows "(if due_after_first (m_checksteps cfg) n
          then nchk s' = nchk s + 1 \<and> nchk s < INT_MAX
               \<and> (\<exists>dumped. checkpoints s' = checkpoints s @ [(n, nchk s + 1, dumped)])
          else s' = s)
         \<and> ncalls s' = ncalls s \<and> nints s' = nints s
         \<and> previousL2 s' = previousL2 s \<and> steady_checks s' = steady_checks s"
  using assms unfolding step_checkpoint_def Let_def
  by (auto simp: ebind_Inr_iff int_add_Inr_iff INT_MAX_def simp: case_prod_beta split: if_splits)

lemma step_steady_effect:
  assumes "step_steady cfg n s = Inr (stop, s')"
  shows "(if due_after_first (m_steadyStateSteps cfg) n
          then (\<exists>L2. CalcSteadyState (m_fields s) (m_steadyStateTol cfg) (previousL2 s)
                        = Inr (stop, L2)
                 \<and> previousL2 s' = L2
                 \<and> steady_checks s' = steady_checks s @ [(previousL2 s, L2, stop)])
          else s' = s \<and> \<not> stop)
         \<and> ncalls s' = ncalls s \<and> nints s' = nints s
         \<and> nchk s' = nchk s \<and> checkpoints s' = checkpoints s"
  using assms unfolding step_steady_def
  by (auto simp: ebind_Inr_iff simp: case_prod_beta split: if_splits)


lemma upto_append: "a \<le> b \<Longrightarrow> b \<le> c \<Longrightarrow> [a + 1..b] @ [b + 1..c] = [a + 1..(c::int)]"
proof (cases "b = a")
  case True
  then show ?thesis by simp
next
  case False
  assume "a \<le> b" "b \<le> c"
  with False have "a + 1 \<le> b" by simp
  from upto_split2 [OF this \<open>b \<le> c\<close>] show ?thesis by simp
qed

lemma AdvanceInTime_step_effect:
  assumes "AdvanceInTime_step cfg ext n s = Inr (stop, s')"
  shows "\<exists>cks scs.
           checkpoints s' = checkpoints s @ cks
         \<and> map fst cks = filter (due_after_first (m_checksteps cfg)) [n..<Suc n]
         \<and> map (fst \<circ> snd) cks = [nchk s + 1..nchk s']
         \<and> nchk s' = nchk s + int (length cks)
         \<and> ncalls s' = ncalls s + (if m_subSteppingScheme cfg then 1 else 0)
         \<and> nints s' = nints s @ map (\<lambda>c. min c (m_intSteps cfg)) [ncalls s..ncalls s' - 1]
         \<and> steady_checks s' = steady_checks s @ scs
         \<and> map fst scs = butlast (previousL2 s # map (fst \<circ> snd) scs)
         \<and> previousL2 s' = last (previousL2 s # map (fst \<circ> snd) scs)
         \<and> (\<forall>c\<in>set scs. \<exists>F. CalcSteadyState F (m_steadyStateTol cfg) (fst c)
                                  = Inr (snd (snd c), fst (snd c)))
         \<and> stop = (\<exists>c\<in>set scs. snd (snd c))
         \<and> length scs \<le> 1
         \<and> (m_steadyStateSteps cfg = 0 \<longrightarrow> scs = [])"
proof -
  from assms obtain s1 s2 s3 s4 s5 s6 where
    1: "step_substep cfg ext n (s\<lparr>m_numstep := int n\<rparr>) = Inr s1"
    and 2: "step_viscoelastic cfg ext n s1 = Inr s2"
    and 3: "step_velocity cfg ext n s2 = Inr s3"
    and 4: "step_energy cfg n s3 = Inr s4"
    and 5: "step_checkpoint cfg ext n s4 = Inr s5"
    and 6: "step_steady cfg n s5 = Inr (stop, s6)"
    and 7: "(stop \<and> s' = s6) \<or> (\<not> stop \<and> step_filters cfg ext s6 = Inr s')"
    unfolding AdvanceInTime_step_def
    by (auto simp: ebind_Inr_iff split: if_splits)
  note e1 = step_substep_effect [OF 1, simplified]
  note e2 = step_viscoelastic_frame [OF 2]
  note e3 = step_velocity_frame [OF 3]
  note e4 = step_energy_frame [OF 4]
  note e5 = step_checkpoint_effect [OF 5]
  note e6 = step_steady_effect [OF 6]
  have e7: "ncalls s' = ncalls s6 \<and> nints s' = nints s6
         \<and> nchk s' = nchk s6 \<and> checkpoints s' = checkpoints s6
         \<and> previousL2 s' = previousL2 s6 \<and> steady_checks s' = steady_checks s6"
    using 7 step_filters_frame by blast
  have pre: "nchk s4 = nchk s" "checkpoints s4 = checkpoints s"
    "previousL2 s5 = previousL2 s" "steady_checks s5 = steady_checks s"
    using e1 e2 e3 e4 e5 by simp_all
  have post: "nchk s' = nchk s5" "checkpoints s' = checkpoints s5"
    using e6 e7 by (simp_all split: if_splits)
  obtain cks where cks: "checkpoints s' = checkpoints s @ cks"
    "map fst cks = filter (due_after_first (m_checksteps cfg)) [n..<Suc n]"
    "map (fst \<circ> snd) cks = [nchk s + 1..nchk s']"
    "nchk s' = nchk s + int (length cks)"
  proof (cases "due_after_first (m_checksteps cfg) n")
    case True
    with e5 obtain dumped where "nchk s5 = nchk s4 + 1" "nchk s4 < INT_MAX"
      "checkpoints s5 = checkpoints s4 @ [(n, nchk s4 + 1, dumped)]" by auto
    then show ?thesis using that [of "[(n, nchk s + 1, dumped)]"] True pre post by simp
  next
    case False
    with e5 have "s5 = s4" by simp
    then show ?thesis using that [of "[]"] False pre post by simp
  qed
  have calls: "ncalls s' = ncalls s + (if m_subSteppingScheme cfg then 1 else 0)"
    "nints s' = nints s @ map (\<lambda>c. min c (m_intSteps cfg)) [ncalls s..ncalls s' - 1]"
    using e1 e2 e3 e4 e5 e6 e7 by (simp_all split: if_splits)
  obtain scs where scs: "steady_checks s' = steady_checks s @ scs"
    "map fst scs = butlast (previousL2 s # map (fst \<circ> snd) scs)"
    "previousL2 s' = last (previousL2 s # map (fst \<circ> snd) scs)"
    "\<forall>c\<in>set scs. \<exists>F. CalcSteadyState F (m_steadyStateTol cfg) (fst c)
                                  = Inr (snd (snd c), fst (snd c))"
    "stop = (\<exists>c\<in>set scs. snd (snd c))" "length scs \<le> 1"
    "m_steadyStateSteps cfg = 0 \<longrightarrow> scs = []"
  proof (cases "due_after_first (m_steadyStateSteps cfg) n")
    case True
    then have nz: "m_steadyStateSteps cfg \<noteq> 0" by (simp add: due_after_first_def)
    from True e6 obtain L2 where
      "CalcSteadyState (m_fields s5) (m_steadyStateTol cfg) (previousL2 s5) = Inr (stop, L2)"
      "previousL2 s6 = L2" "steady_checks s6 = steady_checks s5 @ [(previousL2 s5, L2, stop)]"
      by auto
    then show ?thesis
      using that [of "[(previousL2 s, L2, stop)]"] pre e7 nz by auto
  next
    case False
    with e6 have "s6 = s5" "\<not> stop" by simp_all
    then show ?thesis using that [of "[]"] pre e7 by simp
  qed
  from cks calls scs show ?thesis by blast
qed


lemma AdvanceInTime_loop_effect:
  assumes "AdvanceInTime_loop cfg ext k n s = Inr s'"
  shows "\<exists>j cks scs. j \<le> k
         \<and> checkpoints s' = checkpoints s @ cks
         \<and> map fst cks = filter (due_after_first (m_checksteps cfg)) [n..<n + j]
         \<and> map (fst \<circ> snd) cks = [nchk s + 1..nchk s']
         \<and> nchk s' = nchk s + int (length cks)
         \<and> ncalls s' = ncalls s + (if m_subSteppingScheme cfg then int j else 0)
         \<and> nints s' = nints s @ map (\<lambda>c. min c (m_intSteps cfg)) [ncalls s..ncalls s' - 1]
         \<and> steady_checks s' = steady_checks s @ scs
         \<and> map fst scs = butlast (previousL2 s # map (fst \<circ> snd) scs)
         \<and> previousL2 s' = last (previousL2 s # map (fst \<circ> snd) scs)
         \<and> (\<forall>c\<in>set scs. \<exists>F. CalcSteadyState F (m_steadyStateTol cfg) (fst c)
                                  = Inr (snd (snd c), fst (snd c)))
         \<and> ((\<forall>c\<in>set scs. \<not> snd (snd c)) \<longrightarrow> j = k)
         \<and> length scs \<le> j
         \<and> (m_steadyStateSteps cfg = 0 \<longrightarrow> scs = [])"
  using assms
proof (induction k arbitrary: n s)
  case 0
  then have "s' = s" by simp
  then show ?case by (intro exI [of _ 0] exI [of _ "[]"]) simp
next
  case (Suc k)
  let ?due = "due_after_first (m_checksteps cfg)"
  let ?m = "m_intSteps cfg"
  let ?tol = "m_steadyStateTol cfg"
  from Suc.prems obtain stop s1 where
    step: "AdvanceInTime_step cfg ext n s = Inr (stop, s1)"
    and rest: "if stop then s' = s1 else AdvanceInTime_loop cfg ext k (Suc n) s1 = Inr s'"
    by (auto split: sum.splits if_splits)
  from AdvanceInTime_step_effect [OF step] obtain c1 sc1 where
    a: "checkpoints s1 = checkpoints s @ c1"
      "map fst c1 = filter ?due [n..<Suc n]"
      "map (fst \<circ> snd) c1 = [nchk s + 1..nchk s1]"
      "nchk s1 = nchk s + int (length c1)"
      "ncalls s1 = ncalls s + (if m_subSteppingScheme cfg then 1 else 0)"
      "nints s1 = nints s @ map (\<lambda>c. min c ?m) [ncalls s..ncalls s1 - 1]"
      "steady_checks s1 = steady_checks s @ sc1"
      "map fst sc1 = butlast (previousL2 s # map (fst \<circ> snd) sc1)"
      "previousL2 s1 = last (previousL2 s # map (fst \<circ> snd) sc1)"
      "\<forall>c\<in>set sc1. \<exists>F. CalcSteadyState F ?tol (fst c) = Inr (snd (snd c), fst (snd c))"
      "stop = (\<exists>c\<in>set sc1. snd (snd c))" "length sc1 \<le> 1"
      "m_steadyStateSteps cfg = 0 \<longrightarrow> sc1 = []"
    by blast
  show ?case
  proof (cases stop)
    case True
    then have s': "s' = s1" using rest by simp
    have 1: "1 \<le> Suc k" by simp
    have 3: "map fst c1 = filter ?due [n..<n + 1]" using a(2) by simp
    have 6: "ncalls s1 = ncalls s + (if m_subSteppingScheme cfg then int 1 else 0)"
      using a(5) by simp
    have 12: "(\<forall>c\<in>set sc1. \<not> snd (snd c)) \<longrightarrow> 1 = Suc k" using a(11) True by blast
    show ?thesis unfolding s'
    proof (intro exI conjI)
      show "1 \<le> Suc k" by (rule 1)
      show "checkpoints s1 = checkpoints s @ c1" by (rule a(1))
      show "map fst c1 = filter ?due [n..<n + 1]" by (rule 3)
      show "map (fst \<circ> snd) c1 = [nchk s + 1..nchk s1]" by (rule a(3))
      show "nchk s1 = nchk s + int (length c1)" by (rule a(4))
      show "ncalls s1 = ncalls s + (if m_subSteppingScheme cfg then int 1 else 0)" by (rule 6)
      show "nints s1 = nints s @ map (\<lambda>c. min c ?m) [ncalls s..ncalls s1 - 1]" by (rule a(6))
      show "steady_checks s1 = steady_checks s @ sc1" by (rule a(7))
      show "map fst sc1 = butlast (previousL2 s # map (fst \<circ> snd) sc1)" by (rule a(8))
      show "previousL2 s1 = last (previousL2 s # map (fst \<circ> snd) sc1)" by (rule a(9))
      show "\<forall>c\<in>set sc1. \<exists>F. CalcSteadyState F ?tol (fst c) = Inr (snd (snd c), fst (snd c))"
        by (rule a(10))
      show "(\<forall>c\<in>set sc1. \<not> snd (snd c)) \<longrightarrow> 1 = Suc k" by (rule 12)
      show "length sc1 \<le> 1" by (rule a(12))
      show "m_steadyStateSteps cfg = 0 \<longrightarrow> sc1 = []" by (rule a(13))
    qed
  next
    case False
    then have "AdvanceInTime_loop cfg ext k (Suc n) s1 = Inr s'" using rest by simp
    from Suc.IH [OF this] obtain j c2 sc2 where
      b: "j \<le> k" "checkpoints s' = checkpoints s1 @ c2"
        "map fst c2 = filter ?due [Suc n..<Suc n + j]"
        "map (fst \<circ> snd) c2 = [nchk s1 + 1..nchk s']"
        "nchk s' = nchk s1 + int (length c2)"
        "ncalls s' = ncalls s1 + (if m_subSteppingScheme cfg then int j else 0)"
        "nints s' = nints s1 @ map (\<lambda>c. min c ?m) [ncalls s1..ncalls s' - 1]"
        "steady_checks s' = steady_checks s1 @ sc2"
        "map fst sc2 = butlast (previousL2 s1 # map (fst \<circ> snd) sc2)"
        "previousL2 s' = last (previousL2 s1 # map (fst \<circ> snd) sc2)"
        "\<forall>c\<in>set sc2. \<exists>F. CalcSteadyState F ?tol (fst c) = Inr (snd (snd c), fst (snd c))"
        "(\<forall>c\<in>set sc2. \<not> snd (snd c)) \<longrightarrow> j = k" "length sc2 \<le> j"
        "m_steadyStateSteps cfg = 0 \<longrightarrow> sc2 = []"
      by blast
    have 1: "Suc j \<le> Suc k" using b(1) by simp
    have 2: "checkpoints s' = checkpoints s @ (c1 @ c2)" using a(1) b(2) by simp
    have "n < n + Suc j" by simp
    then have "[n..<n + Suc j] = n # [Suc n..<n + Suc j]" by (rule upt_conv_Cons)
    moreover have "[n..<Suc n] = [n]" by simp
    ultimately have "[n..<n + Suc j] = [n..<Suc n] @ [Suc n..<Suc n + j]" by simp
    then have 3: "map fst (c1 @ c2) = filter ?due [n..<n + Suc j]"
      using a(2) b(3) by (simp only: map_append filter_append)
    have "nchk s \<le> nchk s1" "nchk s1 \<le> nchk s'" using a(4) b(5) by simp_all
    then have "[nchk s + 1..nchk s1] @ [nchk s1 + 1..nchk s'] = [nchk s + 1..nchk s']"
      by (rule upto_append)
    then have 4: "map (fst \<circ> snd) (c1 @ c2) = [nchk s + 1..nchk s']"
      using a(3) b(4) by simp
    have 5: "nchk s' = nchk s + int (length (c1 @ c2))" using a(4) b(5) by simp
    have 6: "ncalls s' = ncalls s + (if m_subSteppingScheme cfg then int (Suc j) else 0)"
      using a(5) b(6) by simp
    have "ncalls s - 1 \<le> ncalls s1 - 1" "ncalls s1 - 1 \<le> ncalls s' - 1"
      using a(5) b(6) by simp_all
    then have "[ncalls s - 1 + 1..ncalls s1 - 1] @ [ncalls s1 - 1 + 1..ncalls s' - 1]
                 = [ncalls s - 1 + 1..ncalls s' - 1]"
      by (rule upto_append)
    then have "[ncalls s..ncalls s1 - 1] @ [ncalls s1..ncalls s' - 1] = [ncalls s..ncalls s' - 1]"
      by simp
    then have 7: "nints s' = nints s @ map (\<lambda>c. min c ?m) [ncalls s..ncalls s' - 1]"
      using a(6) b(7) by (metis append_assoc map_append)
    have 8: "steady_checks s' = steady_checks s @ (sc1 @ sc2)" using a(7) b(8) by simp
    have 9: "map fst (sc1 @ sc2) = butlast (previousL2 s # map (fst \<circ> snd) (sc1 @ sc2))"
      and 10: "previousL2 s' = last (previousL2 s # map (fst \<circ> snd) (sc1 @ sc2))"
    proof -
      consider "sc1 = []" | c where "sc1 = [c]"
        using a(12) by (cases sc1) auto
      then show "map fst (sc1 @ sc2) = butlast (previousL2 s # map (fst \<circ> snd) (sc1 @ sc2))"
      proof cases
        case 1 then show ?thesis using a(9) b(9) by simp
      next
        case 2 then show ?thesis using a(8,9) b(9) by simp
      qed
      consider "sc1 = []" | c where "sc1 = [c]"
        using a(12) by (cases sc1) auto
      then show "previousL2 s' = last (previousL2 s # map (fst \<circ> snd) (sc1 @ sc2))"
      proof cases
        case 1 then show ?thesis using a(9) b(10) by simp
      next
        case 2 then show ?thesis using a(8,9) b(10) by simp
      qed
    qed
    have 11: "\<forall>c\<in>set (sc1 @ sc2). \<exists>F. CalcSteadyState F ?tol (fst c)
                                  = Inr (snd (snd c), fst (snd c))"
      using a(10) b(11) by auto
    have 12: "(\<forall>c\<in>set (sc1 @ sc2). \<not> snd (snd c)) \<longrightarrow> Suc j = Suc k"
      using b(12) by auto
    have 13: "length (sc1 @ sc2) \<le> Suc j" using a(12) b(13) by simp
    have 14: "m_steadyStateSteps cfg = 0 \<longrightarrow> sc1 @ sc2 = []" using a(13) b(14) by simp
    show ?thesis
    proof (intro exI conjI)
      show "Suc j \<le> Suc k" by (rule 1)
      show "checkpoints s' = checkpoints s @ (c1 @ c2)" by (rule 2)
      show "map fst (c1 @ c2) = filter ?due [n..<n + Suc j]" by (rule 3)
      show "map (fst \<circ> snd) (c1 @ c2) = [nchk s + 1..nchk s']" by (rule 4)
      show "nchk s' = nchk s + int (length (c1 @ c2))" by (rule 5)
      show "ncalls s' = ncalls s + (if m_subSteppingScheme cfg then int (Suc j) else 0)"
        by (rule 6)
      show "nints s' = nints s @ map (\<lambda>c. min c ?m) [ncalls s..ncalls s' - 1]" by (rule 7)
      show "steady_checks s' = steady_checks s @ (sc1 @ sc2)" by (rule 8)
      show "map fst (sc1 @ sc2) = butlast (previousL2 s # map (fst \<circ> snd) (sc1 @ sc2))"
        by (rule 9)
      show "previousL2 s' = last (previousL2 s # map (fst \<circ> snd) (sc1 @ sc2))" by (rule 10)
      show "\<forall>c\<in>set (sc1 @ sc2). \<exists>F. CalcSteadyState F ?tol (fst c)
                                  = Inr (snd (snd c), fst (snd c))" by (rule 11)
      show "(\<forall>c\<in>set (sc1 @ sc2). \<not> snd (snd c)) \<longrightarrow> Suc j = Suc k" by (rule 12)
      show "length (sc1 @ sc2) \<le> Suc j" by (rule 13)
      show "m_steadyStateSteps cfg = 0 \<longrightarrow> sc1 @ sc2 = []" by (rule 14)
    qed
  qed
qed


lemma AdvanceInTime_effect:
  assumes "AdvanceInTime cfg ext nsteps s = Inr s'"
  shows "\<exists>j cks scs. j \<le> nat nsteps
         \<and> checkpoints s' = checkpoints s @ cks
         \<and> map fst cks = filter (due_after_first (m_checksteps cfg)) [0..<j]
         \<and> map (fst \<circ> snd) cks = [nchk s + 1..nchk s']
         \<and> nchk s' = nchk s + int (length cks)
         \<and> ncalls s' = ncalls s + (if m_subSteppingScheme cfg then int j else 0)
         \<and> nints s' = nints s @ map (\<lambda>c. min c (m_intSteps cfg)) [ncalls s..ncalls s' - 1]
         \<and> steady_checks s' = steady_checks s @ scs
         \<and> map fst scs = butlast (previousL2 s # map (fst \<circ> snd) scs)
         \<and> previousL2 s' = last (previousL2 s # map (fst \<circ> snd) scs)
         \<and> (\<forall>c\<in>set scs. \<exists>F. CalcSteadyState F (m_steadyStateTol cfg) (fst c)
                                  = Inr (snd (snd c), fst (snd c)))
         \<and> ((\<forall>c\<in>set scs. \<not> snd (snd c)) \<longrightarrow> j = nat nsteps)
         \<and> length scs \<le> j
         \<and> (m_steadyStateSteps cfg = 0 \<longrightarrow> scs = [])"
proof -
  from assms obtain s0 s1 where
    loop: "AdvanceInTime_loop cfg ext (nat nsteps) 0 s0 = Inr s1"
    and pre: "nchk s0 = nchk s" "checkpoints s0 = checkpoints s" "ncalls s0 = ncalls s"
      "nints s0 = nints s" "previousL2 s0 = previousL2 s" "steady_checks s0 = steady_checks s"
    and post: "nchk s' = nchk s1" "checkpoints s' = checkpoints s1" "ncalls s' = ncalls s1"
      "nints s' = nints s1" "previousL2 s' = previousL2 s1" "steady_checks s' = steady_checks s1"
    unfolding AdvanceInTime_def Let_def
    by (auto simp: ebind_Inr_iff split: if_splits)
  from AdvanceInTime_loop_effect [OF loop] show ?thesis
    unfolding pre post by simp
qed

lemma due_after_first_spec:
  "due_after_first steps n = spec_checkpoint_due \<bar>steps\<bar> n"
  by (auto simp: due_after_first_def spec_checkpoint_due_def c_rem_def)


subsection \<open>Running the model on an example\<close>

lemma loop_unfold:
  "0 < k \<Longrightarrow> AdvanceInTime_loop cfg ext k n s =
     (case AdvanceInTime_step cfg ext n s of
        Inl e \<Rightarrow> Inl e
      | Inr (stop, s') \<Rightarrow>
          if stop then Inr s' else AdvanceInTime_loop cfg ext (k - 1) (n + 1) s')"
  by (cases k) (auto split: sum.splits)

lemma Suc_numerals: "Suc (Suc 0) = 2" "Suc (Suc (Suc 0)) = 3" "Suc (Suc (Suc (Suc 0))) = 4"
  by simp_all

lemmas run_defs = AdvanceInTime_def AdvanceInTime_step_def step_substep_def
  step_viscoelastic_def step_velocity_def step_energy_def step_checkpoint_def step_steady_def
  step_filters_def small_cfg_def small_ext_def small_state_def small_field_def due_def
  due_after_first_def read_at_def SetPhys_def Vmath_Vcopy_def c_rem_def Let_def int_add_def
  process_start_def nchk_initial_def ncalls_initial_def previousL2_initial_def INT_MIN_def
  INT_MAX_def demo_cfg_def demo_ext_def demo_state_def SubStepAdvance_def
  SubStepSaveFields_def put_previous_field_def initialise_level_def rotate_component_def
  GetTotPoints_def GetSubstepTimeStep_def GetStdVelocity_def elmt_in_bounds_def
  GetStdVelocity_elmt_def pntVelocity2_def tstep_def fdiv_def Vmath_Vmin_def
  SubStepAdvance_nsubsteps_def SubStepAdvance_dt_def CalcSteadyState_def Vmath_Dot_def
  GetNcoeffs_def dsub_def loop_unfold Suc_numerals upt_rec upto.simps

lemma returns:
  assumes "map_sum id f r = Inr v"
  shows "\<exists>s. r = Inr s \<and> f s = v"
  using assms by (cases r) simp_all

subsection \<open>The viscoelastic stress\<close>

lemma SetPhys_ok:
  "length (phys f) \<le> length r \<Longrightarrow> SetPhys r f = Inr (f\<lparr>phys := take (length (phys f)) r\<rparr>)"
  by (simp add: SetPhys_def Vcopy_ok)

lemma copy_back_stress_ok:
  assumes "i + m_spacedim cfg < length flds" and "i < length r"
    and "length (phys (flds ! (i + m_spacedim cfg))) \<le> length (r ! i)"
  shows "copy_back_stress cfg ext r i flds
           = Inr (flds[i + m_spacedim cfg :=
                    (flds ! (i + m_spacedim cfg))
                      \<lparr>phys := take (length (phys (flds ! (i + m_spacedim cfg)))) (r ! i),
                       coeffs := FwdTrans_IterPerExp ext (r ! i), physState := True\<rparr>])"
  using assms by (simp add: copy_back_stress_def read_at_def SetPhys_ok)

lemma copy_back_loop:
  assumes "distinct is"
    and "\<forall>i\<in>set is. i + m_spacedim cfg < length flds \<and> i < length r
            \<and> length (phys (flds ! (i + m_spacedim cfg))) \<le> length (r ! i)"
  shows "\<exists>flds'. efold (copy_back_stress cfg ext r) is flds = Inr flds'
          \<and> length flds' = length flds
          \<and> (\<forall>i\<in>set is. flds' ! (i + m_spacedim cfg)
                = (flds ! (i + m_spacedim cfg))
                    \<lparr>phys := take (length (phys (flds ! (i + m_spacedim cfg)))) (r ! i),
                     coeffs := FwdTrans_IterPerExp ext (r ! i), physState := True\<rparr>)
          \<and> (\<forall>k<length flds. k \<notin> (\<lambda>i. i + m_spacedim cfg) ` set is \<longrightarrow> flds' ! k = flds ! k)"
  using assms
proof (induction "is" arbitrary: flds)
  case Nil
  then show ?case by simp
next
  case (Cons i "is")
  let ?sd = "m_spacedim cfg"
  let ?new = "\<lambda>flds i. (flds ! (i + ?sd))
                    \<lparr>phys := take (length (phys (flds ! (i + ?sd)))) (r ! i),
                     coeffs := FwdTrans_IterPerExp ext (r ! i), physState := True\<rparr>"
  let ?F1 = "flds[i + ?sd := ?new flds i]"
  have i: "i + ?sd < length flds" "i < length r"
    "length (phys (flds ! (i + ?sd))) \<le> length (r ! i)"
    using Cons.prems(2) by simp_all
  have step: "copy_back_stress cfg ext r i flds = Inr ?F1"
    using i by (rule copy_back_stress_ok)
  have d: "distinct is" and notin: "i \<notin> set is" using Cons.prems(1) by simp_all
  have same: "?F1 ! (j + ?sd) = flds ! (j + ?sd)" if "j \<in> set is" for j
    using that notin by (metis add_right_cancel nth_list_update_neq)
  have pre: "\<forall>j\<in>set is. j + ?sd < length ?F1 \<and> j < length r
            \<and> length (phys (?F1 ! (j + ?sd))) \<le> length (r ! j)"
    using Cons.prems(2) same by simp
  from Cons.IH [OF d pre] obtain flds' where
    run: "efold (copy_back_stress cfg ext r) is ?F1 = Inr flds'"
    and len: "length flds' = length ?F1"
    and new: "\<forall>j\<in>set is. flds' ! (j + ?sd) = ?new ?F1 j"
    and old: "\<forall>k<length ?F1. k \<notin> (\<lambda>i. i + ?sd) ` set is \<longrightarrow> flds' ! k = ?F1 ! k"
    by blast
  have 1: "efold (copy_back_stress cfg ext r) (i # is) flds = Inr flds'" using step run by simp
  have 2: "length flds' = length flds" using len by simp
  have 3: "\<forall>j\<in>set (i # is). flds' ! (j + ?sd) = ?new flds j"
  proof
    fix j assume j: "j \<in> set (i # is)"
    show "flds' ! (j + ?sd) = ?new flds j"
    proof (cases "j = i")
      case True
      have "i + ?sd \<notin> (\<lambda>i. i + ?sd) ` set is" using notin by auto
      then have "flds' ! (i + ?sd) = ?F1 ! (i + ?sd)" using old i(1) by simp
      then show ?thesis using True i(1) by simp
    next
      case False
      with j have j': "j \<in> set is" by simp
      then show ?thesis using new same [OF j'] by simp
    qed
  qed
  have 4: "\<forall>k<length flds. k \<notin> (\<lambda>i. i + ?sd) ` set (i # is) \<longrightarrow> flds' ! k = flds ! k"
    using old by auto
  from 1 2 3 4 show ?case by blast
qed


text \<open>
  C2, as the specification has it: after the integration of the viscoelastic stress the
  owning fields are marked with a stale physical space. The loop ends each field with
  \<open>SetPhysState(true)\<close>: in the small run, with one stress field after the velocity, the
  stress field (both fields with a single point here) comes out of the step with the
  result 7 in its physical values and in its coefficients and with its physical values
  marked as valid.
\<close>

theorem C2_physical_state_counterexample:
  "map_sum id (\<lambda>s'. map (\<lambda>f. (phys f, coeffs f, physState f)) (m_fields s'))
     (step_viscoelastic
        (small_cfg\<lparr>m_equationType := eUnsteadyViscoElastic, m_nViscoElasticStressFields := 1\<rparr>)
        small_ext 0
        (small_state\<lparr>m_fields :=
           [\<lparr>phys = [0], coeffs = [0], physState = False, waveSpace = False\<rparr>,
            \<lparr>phys = [0], coeffs = [0], physState = False, waveSpace = False\<rparr>]\<rparr>))
   = Inr [([0], [0], False), ([7], [7], True)]"
  by (simp add: step_viscoelastic_def integrate_stress_def small_cfg_def small_ext_def
        small_state_def small_field_def copy_back_stress_def read_at_def SetPhys_def
        Vmath_Vcopy_def)

text \<open>
  C2, amended: on a step on which the viscoelastic stress group exists, once the group is
  integrated one outer step (with \<open>fields_viscoelasticstress\<close> the result), the loop that
  follows goes through the stress fields, which come after the \<open>m_spacedim\<close> velocity
  fields: it copies the result into the physical values of each, stores the forward
  transform of the result in its coefficients and marks its physical values as valid
  (\<open>SetPhysState(true)\<close>): both representations of the field are up to date with the
  result, and the physical one is marked as such. It touches no other field. The result
  has an array for each stress field, of as many values as the field has points.
\<close>

theorem C2_stress_copied_back:
  assumes visco: "m_equationType cfg = eUnsteadyViscoElastic"
    and integ: "integrate_stress cfg ext n s = (fields_viscoelasticstress, soln1, flds1)"
    and owners: "m_nViscoElasticStressFields cfg + m_spacedim cfg \<le> length flds1"
    and results: "m_nViscoElasticStressFields cfg \<le> length fields_viscoelasticstress"
    and points: "\<forall>i<m_nViscoElasticStressFields cfg.
                   length (fields_viscoelasticstress ! i)
                     = length (phys (flds1 ! (i + m_spacedim cfg)))"
  shows "\<exists>s'. step_viscoelastic cfg ext n s = Inr s'
          \<and> length (m_fields s') = length flds1
          \<and> (\<forall>i<m_nViscoElasticStressFields cfg.
                phys (m_fields s' ! (i + m_spacedim cfg)) = fields_viscoelasticstress ! i
                \<and> coeffs (m_fields s' ! (i + m_spacedim cfg))
                    = FwdTrans_IterPerExp ext (fields_viscoelasticstress ! i)
                \<and> physState (m_fields s' ! (i + m_spacedim cfg))
                \<and> waveSpace (m_fields s' ! (i + m_spacedim cfg))
                    = waveSpace (flds1 ! (i + m_spacedim cfg)))
          \<and> (\<forall>k<length flds1.
                k < m_spacedim cfg \<or> m_nViscoElasticStressFields cfg + m_spacedim cfg \<le> k
                \<longrightarrow> m_fields s' ! k = flds1 ! k)"
proof -
  let ?nve = "m_nViscoElasticStressFields cfg"
  let ?sd = "m_spacedim cfg"
  let ?r = fields_viscoelasticstress
  have pre: "\<forall>i\<in>set [0..<?nve]. i + ?sd < length flds1 \<and> i < length ?r
            \<and> length (phys (flds1 ! (i + ?sd))) \<le> length (?r ! i)"
    using owners results points by simp
  from copy_back_loop [OF distinct_upt pre, of ext] obtain flds2 where
    run: "efold (copy_back_stress cfg ext ?r) [0..<?nve] flds1 = Inr flds2"
    and len: "length flds2 = length flds1"
    and new: "\<forall>i\<in>set [0..<?nve]. flds2 ! (i + ?sd)
                = (flds1 ! (i + ?sd))
                    \<lparr>phys := take (length (phys (flds1 ! (i + ?sd)))) (?r ! i),
                     coeffs := FwdTrans_IterPerExp ext (?r ! i), physState := True\<rparr>"
    and old: "\<forall>k<length flds1. k \<notin> (\<lambda>i. i + ?sd) ` set [0..<?nve] \<longrightarrow> flds2 ! k = flds1 ! k"
    by blast
  let ?s' = "s\<lparr>m_integrationSoln := soln1, m_fields := flds2\<rparr>"
  have step: "step_viscoelastic cfg ext n s = Inr ?s'"
    using visco integ run by (simp add: step_viscoelastic_def)
  have other: "flds2 ! k = flds1 ! k"
    if "k < length flds1" and "k < ?sd \<or> ?nve + ?sd \<le> k" for k
  proof -
    have "k \<notin> (\<lambda>i. i + ?sd) ` set [0..<?nve]" using that(2) by auto
    with old that(1) show ?thesis by blast
  qed
  show ?thesis
  proof (intro exI [of _ ?s'] conjI allI impI)
    show "step_viscoelastic cfg ext n s = Inr ?s'" by (rule step)
    show "length (m_fields ?s') = length flds1" using len by simp
    show "m_fields ?s' ! k = flds1 ! k"
      if "k < length flds1" and "k < ?sd \<or> ?nve + ?sd \<le> k" for k
      using other [OF that] by simp
  next
    fix i assume i: "i < ?nve"
    then have f: "m_fields ?s' ! (i + ?sd)
                = (flds1 ! (i + ?sd))
                    \<lparr>phys := take (length (phys (flds1 ! (i + ?sd)))) (?r ! i),
                     coeffs := FwdTrans_IterPerExp ext (?r ! i), physState := True\<rparr>"
      using new by simp
    have all: "take (length (phys (flds1 ! (i + ?sd)))) (?r ! i) = ?r ! i"
      using points i by simp
    show "phys (m_fields ?s' ! (i + ?sd)) = ?r ! i"
      by (simp only: f) (simp add: all)
    show "coeffs (m_fields ?s' ! (i + ?sd)) = FwdTrans_IterPerExp ext (?r ! i)"
      by (simp only: f) simp
    show "physState (m_fields ?s' ! (i + ?sd))" by (simp only: f) simp
    show "waveSpace (m_fields ?s' ! (i + ?sd)) = waveSpace (flds1 ! (i + ?sd))"
      by (simp only: f) simp
  qed
qed

theorem C2_stress_copied_back_witness:
  "map_sum id (\<lambda>s'. map (\<lambda>f. (phys f, physState f)) (m_fields s'))
     (step_viscoelastic
        (small_cfg\<lparr>m_equationType := eUnsteadyViscoElastic, m_nViscoElasticStressFields := 1\<rparr>)
        small_ext 3
        (small_state\<lparr>m_fields :=
           [\<lparr>phys = [0], coeffs = [0], physState = False, waveSpace = False\<rparr>,
            \<lparr>phys = [0], coeffs = [0], physState = False, waveSpace = True\<rparr>]\<rparr>))
   = Inr [([0], False), ([7], True)]"
proof -
  let ?cfg = "small_cfg\<lparr>m_equationType := eUnsteadyViscoElastic,
                         m_nViscoElasticStressFields := 1\<rparr>"
  let ?f = "\<lparr>phys = [0::real], coeffs = [0::real], physState = False, waveSpace = False\<rparr>"
  let ?g = "\<lparr>phys = [0::real], coeffs = [0::real], physState = False, waveSpace = True\<rparr>"
  let ?s = "small_state\<lparr>m_fields := [?f, ?g]\<rparr>"
  have visco: "m_equationType ?cfg = eUnsteadyViscoElastic" by simp
  have integ: "integrate_stress ?cfg small_ext 3 ?s = ([[7]], (), [?f, ?g])"
    by (simp add: integrate_stress_def small_cfg_def small_ext_def small_state_def)
  have owners: "m_nViscoElasticStressFields ?cfg + m_spacedim ?cfg \<le> length [?f, ?g]"
    by (simp add: small_cfg_def)
  have results: "m_nViscoElasticStressFields ?cfg \<le> length [[7::real]]" by simp
  have points: "\<forall>i<m_nViscoElasticStressFields ?cfg.
                   length ([[7::real]] ! i) = length (phys ([?f, ?g] ! (i + m_spacedim ?cfg)))"
    by (simp add: small_cfg_def)
  from C2_stress_copied_back [OF visco integ owners results points]
  obtain s' where run: "step_viscoelastic ?cfg small_ext 3 ?s = Inr s'"
    and len: "length (m_fields s') = length [?f, ?g]"
    and new: "\<forall>i<m_nViscoElasticStressFields ?cfg.
                phys (m_fields s' ! (i + m_spacedim ?cfg)) = [[7]] ! i
                \<and> coeffs (m_fields s' ! (i + m_spacedim ?cfg))
                    = FwdTrans_IterPerExp small_ext ([[7]] ! i)
                \<and> physState (m_fields s' ! (i + m_spacedim ?cfg))
                \<and> waveSpace (m_fields s' ! (i + m_spacedim ?cfg))
                    = waveSpace ([?f, ?g] ! (i + m_spacedim ?cfg))"
    and old: "\<forall>k<length [?f, ?g].
                k < m_spacedim ?cfg \<or> m_nViscoElasticStressFields ?cfg + m_spacedim ?cfg \<le> k
                \<longrightarrow> m_fields s' ! k = [?f, ?g] ! k"
    by blast
  from new [rule_format, of 0]
  have 1: "phys (m_fields s' ! 1) = [7]" "physState (m_fields s' ! 1)"
    by (simp_all add: small_cfg_def)
  from old [rule_format, of 0] have 0: "m_fields s' ! 0 = ?f" by (simp add: small_cfg_def)
  from len obtain a b where ab: "m_fields s' = [a, b]"
    by (cases "m_fields s'"; cases "tl (m_fields s')"; cases "tl (tl (m_fields s'))") auto
  with 0 1 have "map (\<lambda>f. (phys f, physState f)) (m_fields s') = [([0], False), ([7], True)]"
    by simp
  with run show ?thesis by simp
qed

subsection \<open>The checkpoints of a run\<close>

text \<open>
  C7, as the specification has it. A checkpoint is said to be written only when
  \<open>checkInterval > 0\<close>: the test of the code is \<open>m_checksteps != 0\<close>, and a run of 4 steps
  with an interval of -2 writes checkpoints at the steps 1 and 3. The sequence numbers
  of a run are said to increment from 1: a second run of 4 steps in the same process
  writes the checkpoints 3 and 4. With a homogeneous decomposition the fields are said
  to be transformed for the dump and back: this is done for the decomposition in one
  direction only; with \<open>eHomogeneous2D\<close> the checkpoint of step 1 dumps the physical
  values that it finds (here 0, where the transform of the coefficients would give 5) and
  leaves every field out of wave space with its physical values marked.
\<close>

theorem C7_checkpoint_counterexample:
  "map_sum id (\<lambda>s. map (\<lambda>(n, k, F). (n, k)) (checkpoints s))
     (AdvanceInTime (small_cfg\<lparr>m_checksteps := - 2\<rparr>) small_ext 4 (process_start small_state))
     = Inr [(1, 1), (3, 2)]
   \<and> map_sum id (\<lambda>s. map (\<lambda>(n, k, F). (n, k)) (checkpoints s))
     (ebind (AdvanceInTime small_cfg small_ext 4 (process_start small_state))
        (AdvanceInTime small_cfg small_ext 4))
     = Inr [(1, 1), (3, 2), (1, 3), (3, 4)]
   \<and> map_sum id (\<lambda>s. (map (\<lambda>(n, k, F). map phys F) (checkpoints s),
                        map waveSpace (m_fields s), map physState (m_fields s)))
     (step_checkpoint (small_cfg\<lparr>m_HomogeneousType := eHomogeneous2D\<rparr>)
        (small_ext\<lparr>BwdTrans := (\<lambda>c. replicate 101 5)\<rparr>) 1
        (small_state\<lparr>fields_array := [replicate 101 0]\<rparr>))
     = Inr ([[replicate 101 0, replicate 101 0]], [False, False], [True, False])"
  by (simp add: run_defs)


lemma two_checkpoints:
  assumes "map fst cks = [a, b]" and "map (fst \<circ> snd) cks = [c, d]"
  shows "\<exists>F1 F2. cks = [(a, c, F1), (b, d, F2)]"
proof -
  from assms(1) obtain x y where cks: "cks = [x, y]"
    by (cases cks; cases "tl cks"; cases "tl (tl cks)") auto
  with assms have "x = (a, c, snd (snd x))" "y = (b, d, snd (snd y))"
    by (auto simp: prod_eq_iff)
  with cks show ?thesis by blast
qed

lemma checkpoints_every_fifth: "filter (spec_checkpoint_due 5) [0..<10] = [4, 9]"
  by (simp add: spec_checkpoint_due_def upt_rec)

text \<open>
  C7, amended: at each step \<open>n\<close> that a run of \<open>nsteps\<close> outer steps executes (all of them
  unless a steady-state check stops the run) a checkpoint is written exactly when
  \<open>checkInterval \<noteq> 0\<close>, \<open>n > 0\<close> and \<open>(n+1) mod |checkInterval| = 0\<close>; the sequence numbers
  of the run increment from the value that the counter of the process has when the run
  starts, which is 0 in a process that has not run before, so that its first checkpoint
  has the number 1. In particular the first run of a process, of 10 outer steps with
  \<open>checkInterval = 5\<close> and no steady-state check, writes exactly 2 checkpoints, at the
  steps 4 and 9, numbered 1 and 2. When the decomposition in one homogeneous direction
  (\<open>eHomogeneous1D\<close>) is active every field is taken out of wave space and transformed to
  physical space for the dump, and transformed back and put into wave space afterwards.
  The run is one that returns.
\<close>

theorem C7_checkpoints:
  "(\<forall>n. due_after_first (m_checksteps cfg) n = spec_checkpoint_due \<bar>m_checksteps cfg\<bar> n)
   \<and> (\<forall>s'. AdvanceInTime cfg ext nsteps s = Inr s' \<longrightarrow>
         (\<exists>j cks. j \<le> nat nsteps
            \<and> ((\<forall>c\<in>set (drop (length (steady_checks s)) (steady_checks s')). \<not> snd (snd c))
                  \<longrightarrow> j = nat nsteps)
            \<and> (m_steadyStateSteps cfg = 0 \<longrightarrow> j = nat nsteps)
            \<and> checkpoints s' = checkpoints s @ cks
            \<and> map fst cks = filter (spec_checkpoint_due \<bar>m_checksteps cfg\<bar>) [0..<j]
            \<and> map (fst \<circ> snd) cks = [nchk s + 1..nchk s + int (length cks)]
            \<and> nchk s' = nchk s + int (length cks)))
   \<and> (\<forall>s'. m_checksteps cfg = 5 \<and> m_steadyStateSteps cfg = 0
            \<and> AdvanceInTime cfg ext 10 (process_start s) = Inr s'
          \<longrightarrow> (\<exists>F1 F2. checkpoints s' = checkpoints s @ [(4, 1, F1), (9, 2, F2)]))
   \<and> (\<forall>n s'. m_HomogeneousType cfg = eHomogeneous1D
            \<and> due_after_first (m_checksteps cfg) n
            \<and> step_checkpoint cfg ext n s = Inr s'
          \<longrightarrow> checkpoints s'
                = checkpoints s @
                    [(n, nchk s + 1,
                      map (\<lambda>f. f\<lparr>waveSpace := False, phys := BwdTrans ext (coeffs f),
                                  physState := True\<rparr>) (m_fields s))]
              \<and> m_fields s'
                = map (\<lambda>f. f\<lparr>waveSpace := True,
                              phys := HomogeneousFwdTrans ext (BwdTrans ext (coeffs f)),
                              physState := False\<rparr>) (m_fields s))"
proof -
  have due: "due_after_first (m_checksteps c) = spec_checkpoint_due \<bar>m_checksteps c\<bar>"
    for c :: Config
    by (rule ext) (rule due_after_first_spec)
  have run: "\<exists>j cks. j \<le> nat k
            \<and> ((\<forall>c\<in>set (drop (length (steady_checks t)) (steady_checks t')). \<not> snd (snd c))
                  \<longrightarrow> j = nat k)
            \<and> (m_steadyStateSteps c = 0 \<longrightarrow> j = nat k)
            \<and> checkpoints t' = checkpoints t @ cks
            \<and> map fst cks = filter (spec_checkpoint_due \<bar>m_checksteps c\<bar>) [0..<j]
            \<and> map (fst \<circ> snd) cks = [nchk t + 1..nchk t + int (length cks)]
            \<and> nchk t' = nchk t + int (length cks)"
    if "AdvanceInTime c ext k t = Inr t'" for c k t t'
  proof -
    from AdvanceInTime_effect [OF that] obtain j cks scs where
      e: "j \<le> nat k" "checkpoints t' = checkpoints t @ cks"
        "map fst cks = filter (due_after_first (m_checksteps c)) [0..<j]"
        "map (fst \<circ> snd) cks = [nchk t + 1..nchk t']" "nchk t' = nchk t + int (length cks)"
        "steady_checks t' = steady_checks t @ scs"
        "(\<forall>c\<in>set scs. \<not> snd (snd c)) \<longrightarrow> j = nat k"
        "m_steadyStateSteps c = 0 \<longrightarrow> scs = []"
      by blast
    have 1: "(\<forall>c\<in>set (drop (length (steady_checks t)) (steady_checks t')). \<not> snd (snd c))
               \<longrightarrow> j = nat k"
      using e(6,7) by simp
    have 2: "m_steadyStateSteps c = 0 \<longrightarrow> j = nat k" using e(7,8) by auto
    have 3: "map fst cks = filter (spec_checkpoint_due \<bar>m_checksteps c\<bar>) [0..<j]"
      using e(3) by (simp only: due)
    have 4: "map (fst \<circ> snd) cks = [nchk t + 1..nchk t + int (length cks)]"
      using e(4,5) by simp
    from e(1) 1 2 e(2) 3 4 e(5) show ?thesis by blast
  qed
  have example: "\<exists>F1 F2. checkpoints s' = checkpoints s @ [(4, 1, F1), (9, 2, F2)]"
    if "m_checksteps cfg = 5" "m_steadyStateSteps cfg = 0"
      "AdvanceInTime cfg ext 10 (process_start s) = Inr s'" for s'
  proof -
    from run [OF that(3)] that(1,2) obtain cks where
      c: "checkpoints s' = checkpoints (process_start s) @ cks"
        "map fst cks = filter (spec_checkpoint_due 5) [0..<10]"
        "map (fst \<circ> snd) cks = [nchk (process_start s) + 1
                                  ..nchk (process_start s) + int (length cks)]"
      by auto
    have steps: "map fst cks = [4, 9]" using c(2) by (simp only: checkpoints_every_fifth)
    then have "length (map fst cks) = 2" by simp
    then have len: "length cks = 2" by simp
    have nums: "map (fst \<circ> snd) cks = [1, 2]"
      using c(3) by (simp add: len process_start_def nchk_initial_def upto.simps)
    from two_checkpoints [OF steps nums] obtain F1 F2 where "cks = [(4, 1, F1), (9, 2, F2)]"
      by (elim exE)
    then show ?thesis using c(1) by (simp add: process_start_def)
  qed
  have homogeneous:
    "checkpoints s' = checkpoints s @
                    [(n, nchk s + 1,
                      map (\<lambda>f. f\<lparr>waveSpace := False, phys := BwdTrans ext (coeffs f),
                                  physState := True\<rparr>) (m_fields s))]
     \<and> m_fields s' = map (\<lambda>f. f\<lparr>waveSpace := True,
                              phys := HomogeneousFwdTrans ext (BwdTrans ext (coeffs f)),
                              physState := False\<rparr>) (m_fields s)"
    if "m_HomogeneousType cfg = eHomogeneous1D" "due_after_first (m_checksteps cfg) n"
      "step_checkpoint cfg ext n s = Inr s'" for n s'
    using that unfolding step_checkpoint_def Let_def
    by (auto simp: ebind_Inr_iff int_add_Inr_iff)
  show ?thesis
    using due_after_first_spec run example homogeneous by blast
qed


theorem C7_checkpoints_witness:
  "map_sum id (\<lambda>s. map (\<lambda>(n, k, F). (n, k)) (checkpoints s))
     (AdvanceInTime (small_cfg\<lparr>m_checksteps := 5\<rparr>) small_ext 10 (process_start small_state))
     = Inr [(4, 1), (9, 2)]
   \<and> map_sum id (\<lambda>s. (map (\<lambda>(n, k, F). (n, k, map waveSpace F)) (checkpoints s),
                        map waveSpace (m_fields s)))
     (step_checkpoint (small_cfg\<lparr>m_HomogeneousType := eHomogeneous1D\<rparr>) small_ext 1
        small_state)
     = Inr ([(1, 1, [False, False])], [True, True])"
proof -
  let ?cfg = "small_cfg\<lparr>m_checksteps := 5\<rparr>"
  let ?run = "AdvanceInTime ?cfg small_ext 10 (process_start small_state)"
  have "map_sum id nchk ?run = Inr 2" by (simp add: run_defs)
  from returns [OF this] obtain s' where run: "?run = Inr s'" by (elim exE conjE)
  have cfg: "m_checksteps ?cfg = 5 \<and> m_steadyStateSteps ?cfg = 0"
    by (simp add: small_cfg_def)
  from C7_checkpoints [of ?cfg small_ext 10 small_state]
  have "\<forall>s'. m_checksteps ?cfg = 5 \<and> m_steadyStateSteps ?cfg = 0 \<and> ?run = Inr s'
          \<longrightarrow> (\<exists>F1 F2. checkpoints s' = checkpoints small_state @ [(4, 1, F1), (9, 2, F2)])"
    by (elim conjE)
  with cfg run obtain F1 F2 where
    "checkpoints s' = checkpoints small_state @ [(4, 1, F1), (9, 2, F2)]" by blast
  then have 1: "map_sum id (\<lambda>s. map (\<lambda>(n, k, F). (n, k)) (checkpoints s)) ?run
                  = Inr [(4, 1), (9, 2)]"
    using run by (simp add: small_state_def)
  let ?hcfg = "small_cfg\<lparr>m_HomogeneousType := eHomogeneous1D\<rparr>"
  let ?step = "step_checkpoint ?hcfg small_ext 1 small_state"
  have "map_sum id nchk ?step = Inr 1" by (simp add: run_defs)
  from returns [OF this] obtain t where step: "?step = Inr t" by (elim exE conjE)
  have hcfg: "m_HomogeneousType ?hcfg = eHomogeneous1D \<and> due_after_first (m_checksteps ?hcfg) 1"
    by (simp add: small_cfg_def due_after_first_def c_rem_def)
  from C7_checkpoints [of ?hcfg small_ext 10 small_state]
  have "\<forall>n s'. m_HomogeneousType ?hcfg = eHomogeneous1D
            \<and> due_after_first (m_checksteps ?hcfg) n
            \<and> step_checkpoint ?hcfg small_ext n small_state = Inr s'
          \<longrightarrow> checkpoints s'
                = checkpoints small_state @
                    [(n, nchk small_state + 1,
                      map (\<lambda>f. f\<lparr>waveSpace := False, phys := BwdTrans small_ext (coeffs f),
                                  physState := True\<rparr>) (m_fields small_state))]
              \<and> m_fields s'
                = map (\<lambda>f. f\<lparr>waveSpace := True,
                              phys := HomogeneousFwdTrans small_ext (BwdTrans small_ext (coeffs f)),
                              physState := False\<rparr>) (m_fields small_state)"
    by (elim conjE)
  with hcfg step have
    "checkpoints t
       = checkpoints small_state @
           [(1, nchk small_state + 1,
             map (\<lambda>f. f\<lparr>waveSpace := False, phys := BwdTrans small_ext (coeffs f),
                         physState := True\<rparr>) (m_fields small_state))]
     \<and> m_fields t
       = map (\<lambda>f. f\<lparr>waveSpace := True,
                     phys := HomogeneousFwdTrans small_ext (BwdTrans small_ext (coeffs f)),
                     physState := False\<rparr>) (m_fields small_state)"
    by blast
  then have 2: "map_sum id (\<lambda>s. (map (\<lambda>(n, k, F). (n, k, map waveSpace F)) (checkpoints s),
                        map waveSpace (m_fields s))) ?step
                 = Inr ([(1, 1, [False, False])], [True, True])"
    using step by (simp add: small_state_def)
  from 1 2 show ?thesis by blast
qed

subsection \<open>The statics from one run to the next\<close>

text \<open>
  C10: \<open>nchk\<close>, \<open>ncalls\<close> and \<open>previousL2\<close> are statics: they have their initial values
  when the process starts and no run sets them back. Take the first run of a process
  and then a second run in the same process, whatever the configuration of each and
  whatever has become of the members of the solver in between, both runs returning.
  The checkpoints of the first run are numbered from 1 and those of the second run
  continue after the last number of the first. The calls of \<open>SubStepAdvance\<close> of the first
  run have \<open>nint = min(c, m_intSteps)\<close> for \<open>c = 1, 2, ...\<close> and those of the second run
  continue with \<open>c\<close> where the first run stopped counting. The first steady-state check
  of the first run compares with 0; every later check, the first check of the second
  run too, compares with the \<open>L2\<close> of the check before it.
\<close>

theorem C10_statics_persist:
  assumes run1: "AdvanceInTime cfg1 ext1 nsteps1 (process_start s0) = Inr s1"
    and run2: "AdvanceInTime cfg2 ext2 nsteps2
                 (s1\<lparr>m_fields := F, fields_array := A, m_time := t, m_numstep := k,
                     m_integrationSoln := i, m_previousVelFields := h\<rparr>) = Inr s2"
  shows "\<exists>j1 j2 cks1 cks2 scs1 scs2.
           j1 \<le> nat nsteps1 \<and> j2 \<le> nat nsteps2
         \<and> ((\<forall>c\<in>set scs1. \<not> snd (snd c)) \<longrightarrow> j1 = nat nsteps1)
         \<and> ((\<forall>c\<in>set scs2. \<not> snd (snd c)) \<longrightarrow> j2 = nat nsteps2)
         \<and> checkpoints s1 = checkpoints s0 @ cks1 \<and> checkpoints s2 = checkpoints s1 @ cks2
         \<and> map (fst \<circ> snd) cks1 = [1..int (length cks1)]
         \<and> map (fst \<circ> snd) cks2
             = [int (length cks1) + 1..int (length cks1) + int (length cks2)]
         \<and> nchk s1 = int (length cks1) \<and> nchk s2 = int (length cks1) + int (length cks2)
         \<and> ncalls s1 = 1 + (if m_subSteppingScheme cfg1 then int j1 else 0)
         \<and> ncalls s2 = ncalls s1 + (if m_subSteppingScheme cfg2 then int j2 else 0)
         \<and> nints s1 = nints s0 @ map (\<lambda>c. min c (m_intSteps cfg1)) [1..ncalls s1 - 1]
         \<and> nints s2 = nints s1 @ map (\<lambda>c. min c (m_intSteps cfg2)) [ncalls s1..ncalls s2 - 1]
         \<and> steady_checks s1 = steady_checks s0 @ scs1
         \<and> steady_checks s2 = steady_checks s1 @ scs2
         \<and> map fst scs1 = butlast (Fin 0 # map (fst \<circ> snd) scs1)
         \<and> previousL2 s1 = last (Fin 0 # map (fst \<circ> snd) scs1)
         \<and> map fst scs2 = butlast (previousL2 s1 # map (fst \<circ> snd) scs2)
         \<and> previousL2 s2 = last (previousL2 s1 # map (fst \<circ> snd) scs2)
         \<and> (\<forall>c\<in>set scs1. \<exists>F. CalcSteadyState F (m_steadyStateTol cfg1) (fst c)
                                   = Inr (snd (snd c), fst (snd c)))
         \<and> (\<forall>c\<in>set scs2. \<exists>F. CalcSteadyState F (m_steadyStateTol cfg2) (fst c)
                                   = Inr (snd (snd c), fst (snd c)))
         \<and> (cks2 \<noteq> [] \<longrightarrow> fst (snd (hd cks2)) = fst (snd (last ((0, 0, []) # cks1))) + 1)
         \<and> (scs1 \<noteq> [] \<and> scs2 \<noteq> [] \<longrightarrow> fst (hd scs2) = fst (snd (last scs1)))"
proof -
  have ps: "nchk (process_start s0) = 0" "ncalls (process_start s0) = 1"
    "previousL2 (process_start s0) = Fin 0" "checkpoints (process_start s0) = checkpoints s0"
    "nints (process_start s0) = nints s0" "steady_checks (process_start s0) = steady_checks s0"
    by (simp_all add: process_start_def nchk_initial_def ncalls_initial_def
          previousL2_initial_def)
  from AdvanceInTime_effect [OF run1, unfolded ps] obtain j1 cks1 scs1 where
    a: "j1 \<le> nat nsteps1" "checkpoints s1 = checkpoints s0 @ cks1"
      "map (fst \<circ> snd) cks1 = [0 + 1..nchk s1]" "nchk s1 = 0 + int (length cks1)"
      "ncalls s1 = 1 + (if m_subSteppingScheme cfg1 then int j1 else 0)"
      "nints s1 = nints s0 @ map (\<lambda>c. min c (m_intSteps cfg1)) [1..ncalls s1 - 1]"
      "steady_checks s1 = steady_checks s0 @ scs1"
      "map fst scs1 = butlast (Fin 0 # map (fst \<circ> snd) scs1)"
      "previousL2 s1 = last (Fin 0 # map (fst \<circ> snd) scs1)"
      "\<forall>c\<in>set scs1. \<exists>F. CalcSteadyState F (m_steadyStateTol cfg1) (fst c)
                                   = Inr (snd (snd c), fst (snd c))"
      "(\<forall>c\<in>set scs1. \<not> snd (snd c)) \<longrightarrow> j1 = nat nsteps1"
    by blast
  let ?s1 = "s1\<lparr>m_fields := F, fields_array := A, m_time := t, m_numstep := k,
                 m_integrationSoln := i, m_previousVelFields := h\<rparr>"
  have ms: "nchk ?s1 = nchk s1" "ncalls ?s1 = ncalls s1"
    "previousL2 ?s1 = previousL2 s1" "checkpoints ?s1 = checkpoints s1"
    "nints ?s1 = nints s1" "steady_checks ?s1 = steady_checks s1"
    by simp_all
  from AdvanceInTime_effect [OF run2, unfolded ms] obtain j2 cks2 scs2 where
    b: "j2 \<le> nat nsteps2" "checkpoints s2 = checkpoints s1 @ cks2"
      "map (fst \<circ> snd) cks2 = [nchk s1 + 1..nchk s2]" "nchk s2 = nchk s1 + int (length cks2)"
      "ncalls s2 = ncalls s1 + (if m_subSteppingScheme cfg2 then int j2 else 0)"
      "nints s2 = nints s1 @ map (\<lambda>c. min c (m_intSteps cfg2)) [ncalls s1..ncalls s2 - 1]"
      "steady_checks s2 = steady_checks s1 @ scs2"
      "map fst scs2 = butlast (previousL2 s1 # map (fst \<circ> snd) scs2)"
      "previousL2 s2 = last (previousL2 s1 # map (fst \<circ> snd) scs2)"
      "\<forall>c\<in>set scs2. \<exists>F. CalcSteadyState F (m_steadyStateTol cfg2) (fst c)
                                   = Inr (snd (snd c), fst (snd c))"
      "(\<forall>c\<in>set scs2. \<not> snd (snd c)) \<longrightarrow> j2 = nat nsteps2"
    by blast
  show ?thesis
  proof (intro exI conjI)
    show "j1 \<le> nat nsteps1" by (rule a(1))
    show "j2 \<le> nat nsteps2" by (rule b(1))
    show "(\<forall>c\<in>set scs1. \<not> snd (snd c)) \<longrightarrow> j1 = nat nsteps1" by (rule a(11))
    show "(\<forall>c\<in>set scs2. \<not> snd (snd c)) \<longrightarrow> j2 = nat nsteps2" by (rule b(11))
    show "checkpoints s1 = checkpoints s0 @ cks1" by (rule a(2))
    show "checkpoints s2 = checkpoints s1 @ cks2" by (rule b(2))
    show "map (fst \<circ> snd) cks1 = [1..int (length cks1)]" using a(3,4) by simp
    show "map (fst \<circ> snd) cks2 = [int (length cks1) + 1..int (length cks1) + int (length cks2)]"
      using b(3,4) a(4) by simp
    show "nchk s1 = int (length cks1)" using a(4) by simp
    show "nchk s2 = int (length cks1) + int (length cks2)" using a(4) b(4) by simp
    show "ncalls s1 = 1 + (if m_subSteppingScheme cfg1 then int j1 else 0)" by (rule a(5))
    show "ncalls s2 = ncalls s1 + (if m_subSteppingScheme cfg2 then int j2 else 0)" by (rule b(5))
    show "nints s1 = nints s0 @ map (\<lambda>c. min c (m_intSteps cfg1)) [1..ncalls s1 - 1]"
      by (rule a(6))
    show "nints s2 = nints s1 @ map (\<lambda>c. min c (m_intSteps cfg2)) [ncalls s1..ncalls s2 - 1]"
      by (rule b(6))
    show "steady_checks s1 = steady_checks s0 @ scs1" by (rule a(7))
    show "steady_checks s2 = steady_checks s1 @ scs2" by (rule b(7))
    show "map fst scs1 = butlast (Fin 0 # map (fst \<circ> snd) scs1)" by (rule a(8))
    show "previousL2 s1 = last (Fin 0 # map (fst \<circ> snd) scs1)" by (rule a(9))
    show "map fst scs2 = butlast (previousL2 s1 # map (fst \<circ> snd) scs2)" by (rule b(8))
    show "previousL2 s2 = last (previousL2 s1 # map (fst \<circ> snd) scs2)" by (rule b(9))
    show "\<forall>c\<in>set scs1. \<exists>F. CalcSteadyState F (m_steadyStateTol cfg1) (fst c)
                                   = Inr (snd (snd c), fst (snd c))" by (rule a(10))
    show "\<forall>c\<in>set scs2. \<exists>F. CalcSteadyState F (m_steadyStateTol cfg2) (fst c)
                                   = Inr (snd (snd c), fst (snd c))" by (rule b(10))
    show "cks2 \<noteq> [] \<longrightarrow> fst (snd (hd cks2)) = fst (snd (last ((0, 0, []) # cks1))) + 1"
    proof
      assume ne: "cks2 \<noteq> []"
      then have "nchk s1 + 1 \<le> nchk s2" using b(4) by (cases cks2) simp_all
      then have "[nchk s1 + 1..nchk s2] = (nchk s1 + 1) # [nchk s1 + 1 + 1..nchk s2]"
        by (rule upto_rec1)
      then have "hd (map (fst \<circ> snd) cks2) = nchk s1 + 1" using b(3) by simp
      then have first: "fst (snd (hd cks2)) = nchk s1 + 1" using ne by (simp add: hd_map)
      have "fst (snd (last ((0, 0, []) # cks1))) = nchk s1"
      proof (cases "cks1 = []")
        case True then show ?thesis using a(4) by simp
      next
        case False
        then have "1 \<le> nchk s1" using a(4) by (cases cks1) simp_all
        then have "[0 + 1..nchk s1] = [0 + 1..nchk s1 - 1] @ [nchk s1]"
          by (simp add: upto_rec2)
        then have "last (map (fst \<circ> snd) cks1) = nchk s1" using a(3) by simp
        then show ?thesis using False by (simp add: last_map)
      qed
      with first show "fst (snd (hd cks2)) = fst (snd (last ((0, 0, []) # cks1))) + 1" by simp
    qed
    show "scs1 \<noteq> [] \<and> scs2 \<noteq> [] \<longrightarrow> fst (hd scs2) = fst (snd (last scs1))"
    proof
      assume ne: "scs1 \<noteq> [] \<and> scs2 \<noteq> []"
      then have "hd (map fst scs2) = previousL2 s1" using b(8) by (cases scs2) simp_all
      moreover have "previousL2 s1 = last (map (fst \<circ> snd) scs1)" using a(9) ne by simp
      ultimately show "fst (hd scs2) = fst (snd (last scs1))"
        using ne by (simp add: hd_map last_map)
    qed
  qed
qed

theorem C10_statics_persist_witness:
  "\<exists>s1 s2. AdvanceInTime demo_cfg demo_ext 4 (process_start demo_state) = Inr s1
     \<and> AdvanceInTime demo_cfg demo_ext 4 s1 = Inr s2
     \<and> map (\<lambda>(n, k, F). (n, k)) (checkpoints s1) = [(1, 1), (3, 2)]
     \<and> map (\<lambda>(n, k, F). (n, k)) (checkpoints s2) = [(1, 1), (3, 2), (1, 3), (3, 4)]
     \<and> nints s1 = [1, 2, 2, 2] \<and> nints s2 = [1, 2, 2, 2, 2, 2, 2, 2]
     \<and> steady_checks s1 = [(Fin 0, Fin 12, False), (Fin 12, Fin 48, False)]
     \<and> steady_checks s2 = [(Fin 0, Fin 12, False), (Fin 12, Fin 48, False),
                            (Fin 48, Fin 108, False), (Fin 108, Fin 192, False)]"
proof -
  let ?proj = "\<lambda>s. (map (\<lambda>(n, k, F). (n, k)) (checkpoints s), nints s, steady_checks s)"
  let ?run1 = "AdvanceInTime demo_cfg demo_ext 4 (process_start demo_state)"
  have "map_sum id ?proj ?run1
          = Inr ([(1, 1), (3, 2)], [1, 2, 2, 2],
                 [(Fin 0, Fin 12, False), (Fin 12, Fin 48, False)])"
    by (simp add: run_defs)
  from returns [OF this] obtain s1 where run1: "?run1 = Inr s1"
    and p1: "?proj s1 = ([(1, 1), (3, 2)], [1, 2, 2, 2],
                         [(Fin 0, Fin 12, False), (Fin 12, Fin 48, False)])"
    by (elim exE conjE)
  have "map_sum id ?proj (ebind ?run1 (AdvanceInTime demo_cfg demo_ext 4))
          = Inr ([(1, 1), (3, 2), (1, 3), (3, 4)], [1, 2, 2, 2, 2, 2, 2, 2],
                 [(Fin 0, Fin 12, False), (Fin 12, Fin 48, False),
                  (Fin 48, Fin 108, False), (Fin 108, Fin 192, False)])"
    by (simp add: run_defs)
  then have "map_sum id ?proj (AdvanceInTime demo_cfg demo_ext 4 s1)
          = Inr ([(1, 1), (3, 2), (1, 3), (3, 4)], [1, 2, 2, 2, 2, 2, 2, 2],
                 [(Fin 0, Fin 12, False), (Fin 12, Fin 48, False),
                  (Fin 48, Fin 108, False), (Fin 108, Fin 192, False)])"
    by (simp only: run1 ebind_Inr)
  from returns [OF this] obtain s2 where run2: "AdvanceInTime demo_cfg demo_ext 4 s1 = Inr s2"
    and p2: "?proj s2 = ([(1, 1), (3, 2), (1, 3), (3, 4)], [1, 2, 2, 2, 2, 2, 2, 2],
                 [(Fin 0, Fin 12, False), (Fin 12, Fin 48, False),
                  (Fin 48, Fin 108, False), (Fin 108, Fin 192, False)])"
    by (elim exE conjE)
  have same: "s1\<lparr>m_fields := m_fields s1, fields_array := fields_array s1, m_time := m_time s1,
            m_numstep := m_numstep s1, m_integrationSoln := m_integrationSoln s1,
            m_previousVelFields := m_previousVelFields s1\<rparr> = s1"
    by simp
  have run2': "AdvanceInTime demo_cfg demo_ext 4
            (s1\<lparr>m_fields := m_fields s1, fields_array := fields_array s1, m_time := m_time s1,
            m_numstep := m_numstep s1, m_integrationSoln := m_integrationSoln s1,
            m_previousVelFields := m_previousVelFields s1\<rparr>) = Inr s2"
    using run2 by (simp only: same)
  from C10_statics_persist [OF run1 run2'] obtain cks1 cks2 where
    "checkpoints s1 = checkpoints demo_state @ cks1" "checkpoints s2 = checkpoints s1 @ cks2"
    "nchk s2 = int (length cks1) + int (length cks2)"
    by blast
  then have "nchk s2 = 4" using p1 p2 by (auto simp: demo_state_def small_state_def)
  with run1 run2 p1 p2 show ?thesis by auto
qed

end
